theory Spec2Isabelle
  imports Main "HOL-Library.Word"
begin

section \<open>HID transactions over libusb: the model of hid-libusb.c\<close>

text \<open>
  The file under study bridges a synchronous control-transfer send and an asynchronous
  interrupt receive.  Its own code is embedded function by function; libusb is the
  environment.  Every blocking libusb call made by the code
  (\<^verbatim>\<open>libusb_control_transfer\<close>, \<^verbatim>\<open>libusb_handle_events\<close>) consumes one step of an
  environment script, which fixes the value the call returns and the completion, if any,
  that libusb delivers to \<^verbatim>\<open>read_callback\<close> while the call is running.  A call
  that finds the script used up has not returned: the model yields \<open>None\<close>.
\<close>

subsection \<open>libusb constants and data\<close>

type_synonym byte = "8 word"

text \<open>The error codes of \<^verbatim>\<open>enum libusb_error\<close> that the source names, with their
  values in libusb.h (libusb-1.0).\<close>

definition LIBUSB_ERROR_IO :: int where "LIBUSB_ERROR_IO = - 1"
definition LIBUSB_ERROR_NO_DEVICE :: int where "LIBUSB_ERROR_NO_DEVICE = - 4"
definition LIBUSB_ERROR_BUSY :: int where "LIBUSB_ERROR_BUSY = - 6"
definition LIBUSB_ERROR_TIMEOUT :: int where "LIBUSB_ERROR_TIMEOUT = - 7"
definition LIBUSB_ERROR_OVERFLOW :: int where "LIBUSB_ERROR_OVERFLOW = - 8"
definition LIBUSB_ERROR_INTERRUPTED :: int where "LIBUSB_ERROR_INTERRUPTED = - 10"

lemmas libusb_error_defs =
  LIBUSB_ERROR_IO_def LIBUSB_ERROR_NO_DEVICE_def LIBUSB_ERROR_BUSY_def
  LIBUSB_ERROR_TIMEOUT_def LIBUSB_ERROR_OVERFLOW_def LIBUSB_ERROR_INTERRUPTED_def

text \<open>\<^verbatim>\<open>enum libusb_transfer_status\<close>, in the order of libusb.h.\<close>

datatype libusb_transfer_status =
    LIBUSB_TRANSFER_COMPLETED
  | LIBUSB_TRANSFER_ERROR
  | LIBUSB_TRANSFER_TIMED_OUT
  | LIBUSB_TRANSFER_CANCELLED
  | LIBUSB_TRANSFER_STALL
  | LIBUSB_TRANSFER_NO_DEVICE
  | LIBUSB_TRANSFER_OVERFLOW

text \<open>The fields of \<^verbatim>\<open>struct libusb_transfer\<close> that \<^verbatim>\<open>read_callback\<close> reads.\<close>

record libusb_transfer =
  status :: libusb_transfer_status
  buffer :: "byte list"
  actual_length :: int

text \<open>
  What libusb reports when a submitted receive reaches its end: the terminal status and
  the bytes that arrived (\<open>actual_length\<close> is their number).
\<close>

record completion =
  c_status :: libusb_transfer_status
  c_data :: "byte list"

text \<open>One step of the environment: the return value of a blocking libusb call and the
  completion delivered while it runs.\<close>

record env_step =
  ret :: int
  delivered :: "completion option"

subsection \<open>Observable actions\<close>

text \<open>
  The calls into libusb, the runs of the callback, the unconditional messages on stderr,
  the jump to the label \<^verbatim>\<open>again\<close> and the process exit, in the order in which the code
  performs them.  \<open>Submit_Transfer b\<close> records in \<open>b\<close> whether a receive was still
  outstanding on the descriptor when \<^verbatim>\<open>libusb_submit_transfer\<close> was called.
\<close>

datatype action =
    Alloc_Transfer
  | Fill_Transfer nat
  | Submit_Transfer bool
  | Control_Transfer "byte list"
  | Cancel_Transfer
  | Handle_Events
  | Read_Callback libusb_transfer_status "byte list"
  | Err_Transmit int
  | Err_Receive int
  | Err_Short_Read int nat
  | Goto_Again
  | Free_Transfer

subsection \<open>The globals of the file\<close>

text \<open>
  \<open>ctx\<close> is whether the libusb context pointer is non-null; \<open>transfer\<close> is the
  descriptor pointer (\<open>None\<close> is NULL, \<open>Some h\<close> the address \<open>h\<close>), \<open>allocs\<close> the
  number of descriptors allocated so far, which names the next one.  \<open>xfer_length\<close> is
  the length written into the descriptor by \<^verbatim>\<open>libusb_fill_interrupt_transfer\<close>;
  the descriptor's buffer pointer is the caller's \<open>reply\<close> array, so libusb stores
  incoming bytes directly there.  \<open>pending\<close> is libusb's side of the descriptor: it
  has been submitted and its callback has not run yet.
\<close>

record hid_state =
  ctx :: bool
  transfer :: "nat option"
  allocs :: nat
  xfer_length :: nat
  pending :: bool
  receive_buf :: "byte list"
  nbytes_received :: int
  reply :: "byte list"
  trace :: "action list"

definition log :: "action \<Rightarrow> hid_state \<Rightarrow> hid_state" where
  "log a s = s\<lparr>trace := trace s @ [a]\<rparr>"

text \<open>\<^verbatim>\<open>memcpy(dst, src, n)\<close> on arrays as lists: the first \<open>n\<close> bytes of \<open>dst\<close> are
  replaced by those of \<open>src\<close>.  (\<open>receive_buf\<close> has 42 bytes; a copy of more than 42
  bytes overruns it in C.)\<close>

definition memcpy :: "byte list \<Rightarrow> byte list \<Rightarrow> nat \<Rightarrow> byte list" where
  "memcpy dst src n = take n src @ drop n dst"

subsection \<open>read_callback\<close>

definition read_callback :: "libusb_transfer \<Rightarrow> hid_state \<Rightarrow> hid_state" where
  "read_callback t s =
     (case status t of
        LIBUSB_TRANSFER_COMPLETED \<Rightarrow>
          s\<lparr>receive_buf := memcpy (receive_buf s) (buffer t) (nat (actual_length t)),
            nbytes_received := actual_length t\<rparr>
      | LIBUSB_TRANSFER_CANCELLED \<Rightarrow> s\<lparr>nbytes_received := LIBUSB_ERROR_INTERRUPTED\<rparr>
      | LIBUSB_TRANSFER_NO_DEVICE \<Rightarrow> s\<lparr>nbytes_received := LIBUSB_ERROR_NO_DEVICE\<rparr>
      | LIBUSB_TRANSFER_TIMED_OUT \<Rightarrow> s\<lparr>nbytes_received := LIBUSB_ERROR_TIMEOUT\<rparr>
      | _ \<Rightarrow> s\<lparr>nbytes_received := LIBUSB_ERROR_IO\<rparr>)"

subsection \<open>The transport\<close>

text \<open>
  Modelled from the spec: libusb itself, the transport, is not part of the repository.
  As sections 3, 4.2 and 5 of the specification describe it, an outcome is produced
  exactly once per submitted receive, by the completion callback, which libusb invokes
  from inside a blocking call of the engine.  So libusb completes a receive only if one
  is outstanding; it stores the bytes that arrived at the start of the descriptor's
  buffer (the caller's \<open>reply\<close>), marks the descriptor as no longer outstanding and
  runs the callback on it.  The return value of the blocking call and the completion it
  delivers are independent of each other.
\<close>

definition complete :: "completion \<Rightarrow> hid_state \<Rightarrow> hid_state" where
  "complete c s =
     (let s1 = s\<lparr>reply := c_data c @ drop (length (c_data c)) (reply s), pending := False\<rparr>;
          s2 = log (Read_Callback (c_status c) (c_data c)) s1
      in read_callback \<lparr>status = c_status c, buffer = reply s2,
                        actual_length = int (length (c_data c))\<rparr> s2)"

definition deliver :: "env_step \<Rightarrow> hid_state \<Rightarrow> hid_state" where
  "deliver e s =
     (case delivered e of
        None \<Rightarrow> s
      | Some c \<Rightarrow> if pending s then complete c s else s)"

text \<open>\<^verbatim>\<open>libusb_submit_transfer\<close>; the source discards its return value.\<close>

definition libusb_submit_transfer :: "hid_state \<Rightarrow> hid_state" where
  "libusb_submit_transfer s = (log (Submit_Transfer (pending s)) s)\<lparr>pending := True\<rparr>"

text \<open>\<^verbatim>\<open>libusb_cancel_transfer\<close> only requests the cancellation: the descriptor stays
  outstanding until libusb runs its callback.\<close>

definition libusb_cancel_transfer :: "hid_state \<Rightarrow> hid_state" where
  "libusb_cancel_transfer s = log Cancel_Transfer s"

definition libusb_control_transfer :: "byte list \<Rightarrow> env_step \<Rightarrow> hid_state \<Rightarrow> hid_state" where
  "libusb_control_transfer d e s = deliver e (log (Control_Transfer d) s)"

definition libusb_handle_events :: "env_step \<Rightarrow> hid_state \<Rightarrow> hid_state" where
  "libusb_handle_events e s = deliver e (log Handle_Events s)"

subsection \<open>write_read\<close>

text \<open>The test of lines 112 to 117: a negative dispatch result other than the four
  transient codes.\<close>

definition fatal_dispatch :: "int \<Rightarrow> bool" where
  "fatal_dispatch result \<longleftrightarrow>
     result < 0 \<and> result \<noteq> LIBUSB_ERROR_BUSY \<and> result \<noteq> LIBUSB_ERROR_TIMEOUT \<and>
     result \<noteq> LIBUSB_ERROR_OVERFLOW \<and> result \<noteq> LIBUSB_ERROR_INTERRUPTED"

text \<open>
  The wait loop, lines 110 to 123.  \<open>Inl r\<close>: the function returns \<open>r\<close> from inside the
  loop; \<open>Inr ()\<close>: the loop condition failed and control reaches line 125.
\<close>

fun wait_loop :: "hid_state \<Rightarrow> env_step list \<Rightarrow> ((int + unit) \<times> hid_state \<times> env_step list) option" where
  "wait_loop s [] = (if nbytes_received s = 0 then None else Some (Inr (), s, []))"
| "wait_loop s (e # es) =
     (if nbytes_received s = 0 then
        (let s1 = libusb_handle_events e s; result = ret e in
         if fatal_dispatch result then Some (Inl result, log (Err_Receive result) s1, es)
         else wait_loop s1 es)
      else Some (Inr (), s, e # es))"

text \<open>
  One pass from the label \<^verbatim>\<open>again\<close> (line 94) to the decision of lines 125 to 131.
  \<open>Inl r\<close>: \<^verbatim>\<open>return r\<close>; \<open>Inr ()\<close>: \<^verbatim>\<open>goto again\<close>.
\<close>

definition attempt :: "byte list \<Rightarrow> hid_state \<Rightarrow> env_step list \<Rightarrow> ((int + unit) \<times> hid_state \<times> env_step list) option" where
  "attempt d s env =
     (let s1 = libusb_submit_transfer (s\<lparr>nbytes_received := 0\<rparr>) in
      case env of
        [] \<Rightarrow> None
      | e # es \<Rightarrow>
          (let s2 = libusb_control_transfer d e s1; result = ret e in
           if result < 0 then
             Some (Inl (- 1), libusb_cancel_transfer (log (Err_Transmit result) s2), es)
           else
             (case wait_loop s2 es of
                None \<Rightarrow> None
              | Some (Inl r, s3, es') \<Rightarrow> Some (Inl r, s3, es')
              | Some (Inr u, s3, es') \<Rightarrow>
                  if nbytes_received s3 = LIBUSB_ERROR_TIMEOUT
                  then Some (Inr (), log Goto_Again s3, es')
                  else Some (Inl (nbytes_received s3), s3, es'))))"

text \<open>Each blocking call uses up one step of the script, so the jump back to
  \<^verbatim>\<open>again\<close> always continues on a shorter script.\<close>

lemma wait_loop_length:
  "wait_loop s es = Some (x, s', es') \<Longrightarrow> length es' \<le> length es"
proof (induction es arbitrary: s)
  case Nil
  then show ?case by (simp split: if_splits)
next
  case (Cons e es)
  show ?case
  proof (cases "nbytes_received s = 0")
    case False
    with Cons.prems show ?thesis by simp
  next
    case True
    show ?thesis
    proof (cases "fatal_dispatch (ret e)")
      case True
      with Cons.prems \<open>nbytes_received s = 0\<close> show ?thesis by (simp add: Let_def)
    next
      case False
      with Cons.prems \<open>nbytes_received s = 0\<close>
      have "wait_loop (libusb_handle_events e s) es = Some (x, s', es')"
        by (simp add: Let_def)
      from Cons.IH [OF this] show ?thesis by simp
    qed
  qed
qed

lemma attempt_length:
  "attempt d s env = Some (x, s', env') \<Longrightarrow> length env' < length env"
  unfolding attempt_def Let_def
  by (cases env) (auto split: if_splits option.splits sum.splits dest: wait_loop_length)

text \<open>The code from the label \<^verbatim>\<open>again\<close> on: attempts are repeated for as long as
  they end in \<^verbatim>\<open>goto again\<close>.\<close>

function write_read_again :: "byte list \<Rightarrow> hid_state \<Rightarrow> env_step list \<Rightarrow> (int \<times> hid_state \<times> env_step list) option" where
  "write_read_again d s env =
     (case attempt d s env of
        None \<Rightarrow> None
      | Some (Inl r, s', env') \<Rightarrow> Some (r, s', env')
      | Some (Inr u, s', env') \<Rightarrow> write_read_again d s' env')"
  by pat_completeness auto
termination
  by (relation "measure (\<lambda>(d, s, env). length env)") (auto dest: attempt_length)

declare write_read_again.simps [simp del]

text \<open>Lines 87 to 93: the descriptor is allocated when the pointer is null, then filled
  with the caller's reply array and its length.\<close>

definition libusb_alloc_transfer :: "hid_state \<Rightarrow> hid_state" where
  "libusb_alloc_transfer s =
     (log Alloc_Transfer s)\<lparr>transfer := Some (allocs s), allocs := Suc (allocs s)\<rparr>"

definition libusb_fill_interrupt_transfer :: "byte list \<Rightarrow> nat \<Rightarrow> hid_state \<Rightarrow> hid_state" where
  "libusb_fill_interrupt_transfer rbuf rlength s =
     (log (Fill_Transfer rlength) s)\<lparr>reply := rbuf, xfer_length := rlength\<rparr>"

definition write_read :: "byte list \<Rightarrow> nat \<Rightarrow> byte list \<Rightarrow> nat \<Rightarrow> hid_state \<Rightarrow> env_step list \<Rightarrow> (int \<times> hid_state \<times> env_step list) option" where
  "write_read data len rbuf rlength s env =
     (let s1 = (if transfer s = None then libusb_alloc_transfer s else s);
          s2 = libusb_fill_interrupt_transfer rbuf rlength s1
      in write_read_again (take len data) s2 env)"

subsection \<open>hid_send_recv, hid_init, hid_close\<close>

text \<open>\<^verbatim>\<open>exit(-1)\<close> ends the process: no later call of the file runs.  The hex dumps
  under \<^verbatim>\<open>debug_level > 1\<close> only print and are left out.\<close>

datatype call_end = Returned | Exited

definition hid_send_recv :: "byte list \<Rightarrow> nat \<Rightarrow> byte list \<Rightarrow> nat \<Rightarrow> hid_state \<Rightarrow> env_step list \<Rightarrow> (call_end \<times> hid_state \<times> env_step list) option" where
  "hid_send_recv data nbytes rdata rlength s env =
     (case write_read data nbytes rdata rlength s env of
        None \<Rightarrow> None
      | Some (reply_len, s1, env1) \<Rightarrow>
          if reply_len < 0 then Some (Exited, s1, env1)
          else if reply_len \<noteq> int rlength
          then Some (Exited, log (Err_Short_Read reply_len rlength) s1, env1)
          else Some (Returned, s1, env1))"



text \<open>The state of the globals when the program starts.\<close>

definition init_state :: hid_state where
  "init_state = \<lparr>ctx = False, transfer = None, allocs = 0, xfer_length = 0, pending = False,
     receive_buf = replicate 42 0, nbytes_received = 0, reply = [], trace = []\<rparr>"



subsection \<open>Reading a trace\<close>

fun is_submit :: "action \<Rightarrow> bool" where
  "is_submit (Submit_Transfer b) = True"
| "is_submit a = False"

fun is_send :: "action \<Rightarrow> bool" where
  "is_send (Control_Transfer d) = True"
| "is_send a = False"

fun is_callback :: "action \<Rightarrow> bool" where
  "is_callback (Read_Callback st d) = True"
| "is_callback a = False"

text \<open>The two messages printed by \<^verbatim>\<open>write_read\<close>.\<close>

fun is_failure :: "action \<Rightarrow> bool" where
  "is_failure (Err_Transmit r) = True"
| "is_failure (Err_Receive r) = True"
| "is_failure a = False"

fun is_err_receive :: "action \<Rightarrow> bool" where
  "is_err_receive (Err_Receive r) = True"
| "is_err_receive a = False"

text \<open>A cancellation, or the transmit error message that precedes it in the source.\<close>

fun is_cancel_or_transmit :: "action \<Rightarrow> bool" where
  "is_cancel_or_transmit Cancel_Transfer = True"
| "is_cancel_or_transmit (Err_Transmit e) = True"
| "is_cancel_or_transmit a = False"

text \<open>The part of a trace after its last submission (all of it when there is none):
  what has happened in the current attempt since the receive was armed.\<close>

definition since_submit :: "action list \<Rightarrow> action list" where
  "since_submit tr = rev (takeWhile (\<lambda>a. \<not> is_submit a) (rev tr))"

definition callbacks :: "action list \<Rightarrow> action list" where
  "callbacks tr = filter is_callback tr"





text \<open>
  Whether every send of a trace happens while a receive is armed.  The flag is whether
  a receive is armed at the start of the trace: a submission arms one, a callback run
  ends it.
\<close>

fun sends_armed :: "bool \<Rightarrow> action list \<Rightarrow> bool" where
  "sends_armed a [] = True"
| "sends_armed a (Submit_Transfer b # tr) = sends_armed True tr"
| "sends_armed a (Read_Callback st d # tr) = sends_armed False tr"
| "sends_armed a (Control_Transfer d # tr) = (a \<and> sends_armed a tr)"
| "sends_armed a (x # tr) = sends_armed a tr"




text \<open>The actions that can follow the send within the last attempt of a call, and the
  actions that can follow the first submission of a call at all: a later submission
  never finds a receive outstanding.\<close>

fun is_tail_action :: "action \<Rightarrow> bool" where
  "is_tail_action Handle_Events = True"
| "is_tail_action (Read_Callback st d) = True"
| "is_tail_action (Err_Transmit r) = True"
| "is_tail_action (Err_Receive r) = True"
| "is_tail_action Cancel_Transfer = True"
| "is_tail_action a = False"


text \<open>The value \<^verbatim>\<open>read_callback\<close> leaves in \<open>nbytes_received\<close> for a completion.\<close>

definition outcome :: "completion \<Rightarrow> int" where
  "outcome c = nbytes_received (read_callback
      \<lparr>status = c_status c, buffer = c_data c, actual_length = int (length (c_data c))\<rparr> init_state)"

text \<open>
  The state of an attempt between the submission and the decision.  Either the receive
  is still outstanding, no callback has run since the submission and the outcome slot
  still holds 0; or the receive has ended, exactly one callback has run since the
  submission, the slot holds its outcome, and the bytes it reported are at the start of
  the caller's reply array.
\<close>

definition armed :: "hid_state \<Rightarrow> bool" where
  "armed s \<longleftrightarrow> pending s \<and> callbacks (since_submit (trace s)) = [] \<and> nbytes_received s = 0"

definition settled :: "completion \<Rightarrow> hid_state \<Rightarrow> bool" where
  "settled c s \<longleftrightarrow>
     \<not> pending s \<and>
     callbacks (since_submit (trace s)) = [Read_Callback (c_status c) (c_data c)] \<and>
     nbytes_received s = outcome c \<and>
     take (length (c_data c)) (reply s) = c_data c \<and>
     (c_status c = LIBUSB_TRANSFER_COMPLETED \<longrightarrow>
        take (length (c_data c)) (receive_buf s) = c_data c)"

definition att_inv :: "hid_state \<Rightarrow> bool" where
  "att_inv s \<longleftrightarrow> armed s \<or> (\<exists>c. settled c s)"

subsection \<open>Concrete environments\<close>

text \<open>Environment steps for concrete runs: a dispatch that does nothing, a send that
  transmits \<open>n\<close> bytes, a dispatch in which the receive ends, a blocking call that only
  returns the code \<open>r\<close>.\<close>

definition idle :: env_step where
  "idle = \<lparr>ret = 0, delivered = None\<rparr>"

definition sent :: "nat \<Rightarrow> env_step" where
  "sent n = \<lparr>ret = int n, delivered = None\<rparr>"

definition completes :: "libusb_transfer_status \<Rightarrow> byte list \<Rightarrow> env_step" where
  "completes st d = \<lparr>ret = 0, delivered = Some \<lparr>c_status = st, c_data = d\<rparr>\<rparr>"

definition dispatch_code :: "int \<Rightarrow> env_step" where
  "dispatch_code r = \<lparr>ret = r, delivered = None\<rparr>"




text \<open>The globals just after the first submission of the program, and after a first
  \<^verbatim>\<open>write_read\<close> call whose send failed with \<open>LIBUSB_ERROR_NO_DEVICE\<close>.\<close>

definition armed_state :: hid_state where
  "armed_state = libusb_submit_transfer (init_state\<lparr>nbytes_received := 0\<rparr>)"


lemmas run_defs = hid_send_recv_def write_read_def write_read_again.simps attempt_def
  libusb_alloc_transfer_def libusb_fill_interrupt_transfer_def libusb_submit_transfer_def
  libusb_control_transfer_def libusb_handle_events_def libusb_cancel_transfer_def
  deliver_def complete_def read_callback_def memcpy_def log_def fatal_dispatch_def
  libusb_error_defs init_state_def idle_def sent_def completes_def Let_def

section \<open>The shape of every run\<close>

lemma since_submit_snoc [simp]:
  "since_submit (tr @ [a]) = (if is_submit a then [] else since_submit tr @ [a])"
  by (simp add: since_submit_def)

lemma callbacks_snoc [simp]:
  "callbacks (tr @ [a]) = (if is_callback a then callbacks tr @ [a] else callbacks tr)"
  by (simp add: callbacks_def)

lemma callbacks_Nil [simp]: "callbacks [] = []"
  by (simp add: callbacks_def)

lemma outcome_simps:
  "c_status c = LIBUSB_TRANSFER_COMPLETED \<Longrightarrow> outcome c = int (length (c_data c))"
  "c_status c = LIBUSB_TRANSFER_CANCELLED \<Longrightarrow> outcome c = LIBUSB_ERROR_INTERRUPTED"
  "c_status c = LIBUSB_TRANSFER_NO_DEVICE \<Longrightarrow> outcome c = LIBUSB_ERROR_NO_DEVICE"
  "c_status c = LIBUSB_TRANSFER_TIMED_OUT \<Longrightarrow> outcome c = LIBUSB_ERROR_TIMEOUT"
  "c_status c = LIBUSB_TRANSFER_ERROR \<Longrightarrow> outcome c = LIBUSB_ERROR_IO"
  "c_status c = LIBUSB_TRANSFER_STALL \<Longrightarrow> outcome c = LIBUSB_ERROR_IO"
  "c_status c = LIBUSB_TRANSFER_OVERFLOW \<Longrightarrow> outcome c = LIBUSB_ERROR_IO"
  by (simp_all add: outcome_def read_callback_def)

lemma complete_settled:
  "armed s \<Longrightarrow> settled c (complete c s)"
  unfolding armed_def settled_def complete_def Let_def log_def read_callback_def outcome_def memcpy_def
  by (cases "c_status c") simp_all

lemma deliver_cases:
  "deliver e s = s \<or> (\<exists>c. pending s \<and> delivered e = Some c \<and> deliver e s = complete c s)"
  unfolding deliver_def by (auto split: option.splits)

lemma deliver_settled:
  "settled c s \<Longrightarrow> deliver e s = s"
  unfolding deliver_def settled_def by (auto split: option.splits)

lemma deliver_inv:
  assumes "att_inv s" shows "att_inv (deliver e s)"
proof -
  from deliver_cases [of e s] show ?thesis
  proof
    assume "deliver e s = s" with assms show ?thesis by simp
  next
    assume "\<exists>c. pending s \<and> delivered e = Some c \<and> deliver e s = complete c s"
    then obtain c where c: "pending s" "deliver e s = complete c s" by blast
    from assms c(1) have "armed s" unfolding att_inv_def settled_def by blast
    from complete_settled [OF this, of c] c(2) show ?thesis
      unfolding att_inv_def by auto
  qed
qed

lemma log_inv:
  "\<not> is_submit a \<Longrightarrow> \<not> is_callback a \<Longrightarrow> att_inv s \<Longrightarrow> att_inv (log a s)"
  unfolding att_inv_def armed_def settled_def log_def by auto

lemma submit_armed:
  "armed (libusb_submit_transfer (s\<lparr>nbytes_received := 0\<rparr>))"
  unfolding armed_def libusb_submit_transfer_def log_def by simp


fun is_quiet :: "action \<Rightarrow> bool" where
  "is_quiet Handle_Events = True"
| "is_quiet (Read_Callback st d) = True"
| "is_quiet a = False"

definition frame :: "hid_state \<Rightarrow> hid_state \<Rightarrow> bool" where
  "frame s s' \<longleftrightarrow> transfer s' = transfer s \<and> allocs s' = allocs s \<and> ctx s' = ctx s \<and> xfer_length s' = xfer_length s"

lemma frame_refl [simp]: "frame s s" by (simp add: frame_def)
lemma frame_trans: "frame s s1 \<Longrightarrow> frame s1 s2 \<Longrightarrow> frame s s2" by (simp add: frame_def)
lemma frame_log [simp]: "frame s (log a s)" by (simp add: frame_def log_def)

lemma wait_loop_cases:
  assumes "wait_loop s es = Some (x, s', es')"
  shows "(nbytes_received s \<noteq> 0 \<and> x = Inr () \<and> s' = s \<and> es' = es) \<or>
         (\<exists>e rest. es = e # rest \<and> nbytes_received s = 0 \<and>
            (fatal_dispatch (ret e) \<and> x = Inl (ret e) \<and>
               s' = log (Err_Receive (ret e)) (libusb_handle_events e s) \<and> es' = rest
             \<or> \<not> fatal_dispatch (ret e) \<and>
               wait_loop (libusb_handle_events e s) rest = Some (x, s', es')))"
  using assms by (cases es) (auto simp: Let_def split: if_splits)

lemma deliver_trace:
  "\<exists>tr. trace (deliver e s) = trace s @ tr \<and> (\<forall>a\<in>set tr. is_callback a) \<and> frame s (deliver e s)"
  unfolding deliver_def complete_def Let_def log_def read_callback_def frame_def
  by (auto split: option.splits libusb_transfer_status.splits)

lemma callback_quiet: "is_callback a \<Longrightarrow> is_quiet a"
  by (cases a) auto

lemma handle_events_trace:
  "\<exists>tr. trace (libusb_handle_events e s) = trace s @ tr \<and> (\<forall>a\<in>set tr. is_quiet a)
     \<and> frame s (libusb_handle_events e s)"
proof -
  obtain tr where tr: "trace (deliver e (log Handle_Events s)) = trace (log Handle_Events s) @ tr"
     "\<forall>a\<in>set tr. is_callback a" "frame (log Handle_Events s) (deliver e (log Handle_Events s))"
    using deliver_trace by blast
  from tr(2) have "\<forall>a\<in>set tr. is_quiet a" by (blast intro: callback_quiet)
  with tr show ?thesis
    unfolding libusb_handle_events_def log_def frame_def
    by (intro exI [of _ "Handle_Events # tr"]) auto
qed

lemma handle_events_inv: "att_inv s \<Longrightarrow> att_inv (libusb_handle_events e s)"
  unfolding libusb_handle_events_def by (intro deliver_inv log_inv) auto

definition wait_tail :: "(int + unit) \<Rightarrow> hid_state \<Rightarrow> action list \<Rightarrow> bool" where
  "wait_tail x s' tr \<longleftrightarrow>
     (case x of
        Inl r \<Rightarrow> fatal_dispatch r \<and> (\<exists>w. tr = w @ [Err_Receive r] \<and> (\<forall>a\<in>set w. is_quiet a))
      | Inr u \<Rightarrow> nbytes_received s' \<noteq> 0 \<and> (\<forall>a\<in>set tr. is_quiet a))"

lemma wait_tail_prepend:
  "\<forall>a\<in>set tr. is_quiet a \<Longrightarrow> wait_tail x s' tr' \<Longrightarrow> wait_tail x s' (tr @ tr')"
  unfolding wait_tail_def
proof (cases x)
  case (Inl r)
  assume q: "\<forall>a\<in>set tr. is_quiet a"
    and "case x of Inl r \<Rightarrow> fatal_dispatch r \<and> (\<exists>w. tr' = w @ [Err_Receive r] \<and> (\<forall>a\<in>set w. is_quiet a))
      | Inr u \<Rightarrow> nbytes_received s' \<noteq> 0 \<and> (\<forall>a\<in>set tr'. is_quiet a)"
  with Inl obtain w where w: "fatal_dispatch r" "tr' = w @ [Err_Receive r]" "\<forall>a\<in>set w. is_quiet a"
    by auto
  have "tr @ tr' = (tr @ w) @ [Err_Receive r]" using w(2) by simp
  moreover have "\<forall>a\<in>set (tr @ w). is_quiet a" using q w(3) by auto
  ultimately show "case x of Inl r \<Rightarrow> fatal_dispatch r \<and> (\<exists>w. tr @ tr' = w @ [Err_Receive r] \<and> (\<forall>a\<in>set w. is_quiet a))
      | Inr u \<Rightarrow> nbytes_received s' \<noteq> 0 \<and> (\<forall>a\<in>set (tr @ tr'). is_quiet a)"
    using Inl w(1) by (simp only: sum.case) blast
next
  case (Inr u)
  assume "\<forall>a\<in>set tr. is_quiet a"
    and "case x of Inl r \<Rightarrow> fatal_dispatch r \<and> (\<exists>w. tr' = w @ [Err_Receive r] \<and> (\<forall>a\<in>set w. is_quiet a))
      | Inr u \<Rightarrow> nbytes_received s' \<noteq> 0 \<and> (\<forall>a\<in>set tr'. is_quiet a)"
  with Inr show "case x of Inl r \<Rightarrow> fatal_dispatch r \<and> (\<exists>w. tr @ tr' = w @ [Err_Receive r] \<and> (\<forall>a\<in>set w. is_quiet a))
      | Inr u \<Rightarrow> nbytes_received s' \<noteq> 0 \<and> (\<forall>a\<in>set (tr @ tr'). is_quiet a)"
    by auto
qed

lemma wait_loop_sound:
  "wait_loop s es = Some (x, s', es') \<Longrightarrow> att_inv s \<Longrightarrow>
     att_inv s' \<and> frame s s' \<and> (\<exists>tr. trace s' = trace s @ tr \<and> wait_tail x s' tr)"
proof (induction es arbitrary: s)
  case Nil
  from wait_loop_cases [OF Nil.prems(1)] Nil.prems(2) show ?case
    by (auto simp: wait_tail_def)
next
  case (Cons e0 es0)
  from wait_loop_cases [OF Cons.prems(1)]
  consider (stop) "nbytes_received s \<noteq> 0" "x = Inr ()" "s' = s"
    | (fatal) "fatal_dispatch (ret e0)" "x = Inl (ret e0)"
         "s' = log (Err_Receive (ret e0)) (libusb_handle_events e0 s)"
    | (step) "\<not> fatal_dispatch (ret e0)"
         "wait_loop (libusb_handle_events e0 s) es0 = Some (x, s', es')"
    by auto
  then show ?case
  proof cases
    case stop
    with Cons.prems(2) show ?thesis by (auto simp: wait_tail_def)
  next
    case fatal
    obtain tr where tr: "trace (libusb_handle_events e0 s) = trace s @ tr"
      "\<forall>a\<in>set tr. is_quiet a" "frame s (libusb_handle_events e0 s)"
      using handle_events_trace by blast
    have "att_inv s'" using fatal(3) Cons.prems(2)
      by (auto intro!: log_inv handle_events_inv)
    moreover have "frame s s'" using fatal(3) tr(3) by (simp add: frame_def log_def)
    moreover have "trace s' = trace s @ (tr @ [Err_Receive (ret e0)])"
      using fatal(3) tr(1) by (simp add: log_def)
    moreover have "wait_tail x s' (tr @ [Err_Receive (ret e0)])"
      using fatal(1,2) tr(2) by (auto simp: wait_tail_def)
    ultimately show ?thesis by blast
  next
    case step
    obtain tr where tr: "trace (libusb_handle_events e0 s) = trace s @ tr"
      "\<forall>a\<in>set tr. is_quiet a" "frame s (libusb_handle_events e0 s)"
      using handle_events_trace by blast
    from Cons.IH [OF step(2) handle_events_inv [OF Cons.prems(2)]]
    obtain tr' where IH: "att_inv s'" "frame (libusb_handle_events e0 s) s'"
      "trace s' = trace (libusb_handle_events e0 s) @ tr'" "wait_tail x s' tr'"
      by blast
    have "trace s' = trace s @ (tr @ tr')" using IH(3) tr(1) by simp
    moreover note wait_tail_prepend [OF tr(2) IH(4)]
    ultimately show ?thesis using IH(1) frame_trans [OF tr(3) IH(2)] by blast
  qed
qed

lemma control_transfer_trace:
  "\<exists>tr. trace (libusb_control_transfer d e s) = trace s @ Control_Transfer d # tr \<and>
     (\<forall>a\<in>set tr. is_callback a) \<and> frame s (libusb_control_transfer d e s)"
proof -
  obtain tr where tr: "trace (deliver e (log (Control_Transfer d) s)) = trace (log (Control_Transfer d) s) @ tr"
     "\<forall>a\<in>set tr. is_callback a" "frame (log (Control_Transfer d) s) (deliver e (log (Control_Transfer d) s))"
    using deliver_trace by blast
  then show ?thesis
    unfolding libusb_control_transfer_def log_def frame_def
    by (intro exI [of _ tr]) auto
qed

lemma control_transfer_inv: "att_inv s \<Longrightarrow> att_inv (libusb_control_transfer d e s)"
  unfolding libusb_control_transfer_def by (intro deliver_inv log_inv) auto

lemma submit_trace:
  "trace (libusb_submit_transfer (s\<lparr>nbytes_received := 0\<rparr>)) = trace s @ [Submit_Transfer (pending s)]"
  "frame s (libusb_submit_transfer (s\<lparr>nbytes_received := 0\<rparr>))"
  by (simp_all add: libusb_submit_transfer_def log_def frame_def)

lemma attempt_cases:
  assumes "attempt d s env = Some (x, s', env')"
  obtains
    (send_failed) e es where "env = e # es" "ret e < 0" "x = Inl (- 1)" "env' = es"
      "s' = libusb_cancel_transfer (log (Err_Transmit (ret e))
              (libusb_control_transfer d e (libusb_submit_transfer (s\<lparr>nbytes_received := 0\<rparr>))))"
  | (dispatch_failed) e es r where "env = e # es" "0 \<le> ret e" "x = Inl r"
      "wait_loop (libusb_control_transfer d e (libusb_submit_transfer (s\<lparr>nbytes_received := 0\<rparr>))) es
         = Some (Inl r, s', env')"
  | (timed_out) e es s3 where "env = e # es" "0 \<le> ret e" "x = Inr ()"
      "wait_loop (libusb_control_transfer d e (libusb_submit_transfer (s\<lparr>nbytes_received := 0\<rparr>))) es
         = Some (Inr (), s3, env')"
      "nbytes_received s3 = LIBUSB_ERROR_TIMEOUT" "s' = log Goto_Again s3"
  | (outcome) e es where "env = e # es" "0 \<le> ret e" "x = Inl (nbytes_received s')"
      "wait_loop (libusb_control_transfer d e (libusb_submit_transfer (s\<lparr>nbytes_received := 0\<rparr>))) es
         = Some (Inr (), s', env')"
      "nbytes_received s' \<noteq> LIBUSB_ERROR_TIMEOUT"
  using assms unfolding attempt_def Let_def
  by (cases env) (auto split: if_splits option.splits sum.splits)


definition attempt_tail :: "(int + unit) \<Rightarrow> hid_state \<Rightarrow> action list \<Rightarrow> bool" where
  "attempt_tail x s' mid \<longleftrightarrow>
     (case x of
        Inr u \<Rightarrow> nbytes_received s' = LIBUSB_ERROR_TIMEOUT \<and>
                 (\<exists>w. mid = w @ [Goto_Again] \<and> (\<forall>a\<in>set w. is_quiet a))
      | Inl r \<Rightarrow>
          (\<exists>w e. mid = w @ [Err_Transmit e, Cancel_Transfer] \<and> (\<forall>a\<in>set w. is_quiet a) \<and> r = - 1 \<and> e < 0)
        \<or> (\<exists>w. mid = w @ [Err_Receive r] \<and> (\<forall>a\<in>set w. is_quiet a) \<and> fatal_dispatch r)
        \<or> ((\<forall>a\<in>set mid. is_quiet a) \<and> r = nbytes_received s' \<and> r \<noteq> 0 \<and> r \<noteq> LIBUSB_ERROR_TIMEOUT))"

lemma attempt_sound:
  assumes "attempt d s env = Some (x, s', env')"
  shows "att_inv s' \<and> frame s s' \<and>
     (\<exists>mid. trace s' = trace s @ Submit_Transfer (pending s) # Control_Transfer d # mid \<and>
        attempt_tail x s' mid)"
proof -
  let ?s1 = "libusb_submit_transfer (s\<lparr>nbytes_received := 0\<rparr>)"
  have inv1: "att_inv ?s1" using submit_armed unfolding att_inv_def by blast
  have inv2: "\<And>e. att_inv (libusb_control_transfer d e ?s1)"
    by (rule control_transfer_inv [OF inv1])
  have tr2: "\<And>e. \<exists>cb. trace (libusb_control_transfer d e ?s1)
        = trace s @ Submit_Transfer (pending s) # Control_Transfer d # cb \<and>
       (\<forall>a\<in>set cb. is_quiet a) \<and> frame s (libusb_control_transfer d e ?s1)"
  proof -
    fix e
    obtain cb where cb: "trace (libusb_control_transfer d e ?s1) = trace ?s1 @ Control_Transfer d # cb"
      "\<forall>a\<in>set cb. is_callback a" "frame ?s1 (libusb_control_transfer d e ?s1)"
      using control_transfer_trace by blast
    from cb(2) have "\<forall>a\<in>set cb. is_quiet a" by (blast intro: callback_quiet)
    with cb(1,3) submit_trace [of s] show "\<exists>cb. trace (libusb_control_transfer d e ?s1)
        = trace s @ Submit_Transfer (pending s) # Control_Transfer d # cb \<and>
       (\<forall>a\<in>set cb. is_quiet a) \<and> frame s (libusb_control_transfer d e ?s1)"
      by (intro exI [of _ cb]) (auto simp: frame_def)
  qed
  from assms show ?thesis
  proof (cases rule: attempt_cases)
    case (send_failed e es)
    obtain cb where cb: "trace (libusb_control_transfer d e ?s1)
        = trace s @ Submit_Transfer (pending s) # Control_Transfer d # cb"
       "\<forall>a\<in>set cb. is_quiet a" "frame s (libusb_control_transfer d e ?s1)"
      using tr2 by blast
    have "att_inv s'" unfolding send_failed(5) libusb_cancel_transfer_def
      by (intro log_inv inv2) auto
    moreover have "frame s s'" using cb(3) unfolding send_failed(5) libusb_cancel_transfer_def
      by (simp add: frame_def log_def)
    moreover have "trace s' = trace s @ Submit_Transfer (pending s) # Control_Transfer d #
        (cb @ [Err_Transmit (ret e), Cancel_Transfer])"
      using cb(1) unfolding send_failed(5) libusb_cancel_transfer_def by (simp add: log_def)
    moreover have "attempt_tail x s' (cb @ [Err_Transmit (ret e), Cancel_Transfer])"
      unfolding attempt_tail_def using send_failed(2,3) cb(2) by auto
    ultimately show ?thesis by blast
  next
    case (dispatch_failed e es r)
    obtain cb where cb: "trace (libusb_control_transfer d e ?s1)
        = trace s @ Submit_Transfer (pending s) # Control_Transfer d # cb"
       "\<forall>a\<in>set cb. is_quiet a" "frame s (libusb_control_transfer d e ?s1)"
      using tr2 by blast
    from wait_loop_sound [OF dispatch_failed(4) inv2]
    obtain tr where w: "att_inv s'" "frame (libusb_control_transfer d e ?s1) s'"
      "trace s' = trace (libusb_control_transfer d e ?s1) @ tr" "wait_tail (Inl r) s' tr"
      by blast
    from w(4) obtain w0 where w0: "fatal_dispatch r" "tr = w0 @ [Err_Receive r]" "\<forall>a\<in>set w0. is_quiet a"
      unfolding wait_tail_def by auto
    have "trace s' = trace s @ Submit_Transfer (pending s) # Control_Transfer d # ((cb @ w0) @ [Err_Receive r])"
      using cb(1) w(3) w0(2) by simp
    moreover have "attempt_tail x s' ((cb @ w0) @ [Err_Receive r])"
      unfolding attempt_tail_def using dispatch_failed(3) cb(2) w0(1,3) by auto
    ultimately show ?thesis using w(1) frame_trans [OF cb(3) w(2)] by blast
  next
    case (timed_out e es s3)
    obtain cb where cb: "trace (libusb_control_transfer d e ?s1)
        = trace s @ Submit_Transfer (pending s) # Control_Transfer d # cb"
       "\<forall>a\<in>set cb. is_quiet a" "frame s (libusb_control_transfer d e ?s1)"
      using tr2 by blast
    from wait_loop_sound [OF timed_out(4) inv2]
    obtain tr where w: "att_inv s3" "frame (libusb_control_transfer d e ?s1) s3"
      "trace s3 = trace (libusb_control_transfer d e ?s1) @ tr" "wait_tail (Inr ()) s3 tr"
      by blast
    from w(4) have q: "\<forall>a\<in>set tr. is_quiet a" unfolding wait_tail_def by simp
    have "att_inv s'" unfolding timed_out(6) by (intro log_inv w(1)) auto
    moreover have "frame s s'" using frame_trans [OF cb(3) w(2)]
      unfolding timed_out(6) by (simp add: frame_def log_def)
    moreover have "trace s' = trace s @ Submit_Transfer (pending s) # Control_Transfer d # ((cb @ tr) @ [Goto_Again])"
      using cb(1) w(3) unfolding timed_out(6) by (simp add: log_def)
    moreover have "attempt_tail x s' ((cb @ tr) @ [Goto_Again])"
      unfolding attempt_tail_def using timed_out(3,5) cb(2) q
      unfolding timed_out(6) by (auto simp: log_def)
    ultimately show ?thesis by blast
  next
    case (outcome e es)
    obtain cb where cb: "trace (libusb_control_transfer d e ?s1)
        = trace s @ Submit_Transfer (pending s) # Control_Transfer d # cb"
       "\<forall>a\<in>set cb. is_quiet a" "frame s (libusb_control_transfer d e ?s1)"
      using tr2 by blast
    from wait_loop_sound [OF outcome(4) inv2]
    obtain tr where w: "att_inv s'" "frame (libusb_control_transfer d e ?s1) s'"
      "trace s' = trace (libusb_control_transfer d e ?s1) @ tr" "wait_tail (Inr ()) s' tr"
      by blast
    from w(4) have q: "\<forall>a\<in>set tr. is_quiet a" "nbytes_received s' \<noteq> 0"
      unfolding wait_tail_def by simp_all
    have "trace s' = trace s @ Submit_Transfer (pending s) # Control_Transfer d # (cb @ tr)"
      using cb(1) w(3) by simp
    moreover have "attempt_tail x s' (cb @ tr)"
      unfolding attempt_tail_def using outcome(3,5) cb(2) q by auto
    ultimately show ?thesis using w(1) frame_trans [OF cb(3) w(2)] by blast
  qed
qed

inductive run_shape :: "byte list \<Rightarrow> int \<Rightarrow> hid_state \<Rightarrow> bool \<Rightarrow> action list \<Rightarrow> bool"
  for d :: "byte list" and r :: int and s' :: hid_state where
  final: "attempt_tail (Inl r) s' mid \<Longrightarrow>
            callbacks mid = [] \<and> nbytes_received s' = 0 \<or>
              (\<exists>c. callbacks mid = [Read_Callback (c_status c) (c_data c)] \<and>
                   nbytes_received s' = outcome c) \<Longrightarrow>
            run_shape d r s' b (Submit_Transfer b # Control_Transfer d # mid)"
| retry: "\<forall>a\<in>set w. is_quiet a \<Longrightarrow> callbacks w = [Read_Callback LIBUSB_TRANSFER_TIMED_OUT x] \<Longrightarrow>
            run_shape d r s' False rest \<Longrightarrow>
            run_shape d r s' b (Submit_Transfer b # Control_Transfer d # w @ Goto_Again # rest)"

lemma outcome_timeout:
  "outcome c = LIBUSB_ERROR_TIMEOUT \<Longrightarrow> c_status c = LIBUSB_TRANSFER_TIMED_OUT"
  by (cases "c_status c") (auto simp: outcome_simps libusb_error_defs)

lemma since_submit_append_quiet:
  "\<forall>a\<in>set w. \<not> is_submit a \<Longrightarrow> since_submit (tr @ Submit_Transfer b # w) = w"
proof -
  assume a: "\<forall>a\<in>set w. \<not> is_submit a"
  then have "takeWhile (\<lambda>a. \<not> is_submit a) (rev w @ Submit_Transfer b # rev tr) = rev w"
    by (subst takeWhile_append2) auto
  then show ?thesis unfolding since_submit_def by simp
qed

lemma quiet_not_submit: "is_quiet a \<Longrightarrow> \<not> is_submit a"
  by (cases a) auto

lemma attempt_tail_no_submit:
  "attempt_tail x s' mid \<Longrightarrow> \<forall>a\<in>set mid. \<not> is_submit a"
  unfolding attempt_tail_def
  by (cases x) (fastforce dest: quiet_not_submit)+

lemma attempt_callbacks:
  assumes "trace s1 = tr @ Submit_Transfer b # Control_Transfer d # mid"
    "\<forall>a\<in>set mid. \<not> is_submit a"
  shows "callbacks (since_submit (trace s1)) = callbacks mid"
proof -
  have "\<forall>a\<in>set (Control_Transfer d # mid). \<not> is_submit a"
    using assms(2) by auto
  from since_submit_append_quiet [OF this]
  have "since_submit (trace s1) = Control_Transfer d # mid"
    unfolding assms(1) .
  then show ?thesis by (simp add: callbacks_def)
qed

lemma att_inv_callbacks:
  assumes "att_inv s1" "trace s1 = tr @ Submit_Transfer b # Control_Transfer d # mid"
    "\<forall>a\<in>set mid. \<not> is_submit a"
  shows "callbacks mid = [] \<and> nbytes_received s1 = 0 \<or>
     (\<exists>c. callbacks mid = [Read_Callback (c_status c) (c_data c)] \<and>
          nbytes_received s1 = outcome c \<and> settled c s1)"
  using assms(1) attempt_callbacks [OF assms(2,3)]
  unfolding att_inv_def armed_def settled_def by auto

lemma timed_out_attempt:
  assumes "att_inv s1" "nbytes_received s1 = LIBUSB_ERROR_TIMEOUT"
    "trace s1 = tr @ Submit_Transfer b # Control_Transfer d # w @ [Goto_Again]"
    "\<forall>a\<in>set w. is_quiet a"
  shows "\<not> pending s1 \<and> (\<exists>x. callbacks w = [Read_Callback LIBUSB_TRANSFER_TIMED_OUT x])"
proof -
  have ns: "\<forall>a\<in>set (w @ [Goto_Again]). \<not> is_submit a"
    using assms(4) by (auto dest: quiet_not_submit)
  from att_inv_callbacks [OF assms(1,3) ns] assms(2)
  obtain c where c: "callbacks (w @ [Goto_Again]) = [Read_Callback (c_status c) (c_data c)]"
    "nbytes_received s1 = outcome c" "settled c s1"
    by (auto simp: libusb_error_defs)
  from c(2) assms(2) have "c_status c = LIBUSB_TRANSFER_TIMED_OUT"
    by (auto intro: outcome_timeout)
  with c(1,3) show ?thesis unfolding settled_def by auto
qed

lemma write_read_again_sound:
  "write_read_again d s env = Some (r, s', env') \<Longrightarrow>
     att_inv s' \<and> frame s s' \<and> (\<exists>tr. trace s' = trace s @ tr \<and> run_shape d r s' (pending s) tr)"
proof (induction d s env rule: write_read_again.induct)
  case (1 d s env)
  from "1.prems" obtain x s1 env1 where att: "attempt d s env = Some (x, s1, env1)"
    by (subst (asm) write_read_again.simps) (auto split: option.splits)
  from attempt_sound [OF att] obtain mid where a: "att_inv s1" "frame s s1"
    "trace s1 = trace s @ Submit_Transfer (pending s) # Control_Transfer d # mid"
    "attempt_tail x s1 mid" by blast
  show ?case
  proof (cases x)
    case (Inl r0)
    with att "1.prems" have eq: "r = r0" "s' = s1"
      by (subst (asm) write_read_again.simps; simp)+
    from a(4) Inl have tl: "attempt_tail (Inl r) s' mid" using eq by simp
    from att_inv_callbacks [OF a(1,3) attempt_tail_no_submit [OF a(4)]]
    have "callbacks mid = [] \<and> nbytes_received s' = 0 \<or>
       (\<exists>c. callbacks mid = [Read_Callback (c_status c) (c_data c)] \<and> nbytes_received s' = outcome c)"
      using eq by auto
    from run_shape.final [OF tl this] a(1,2,3) eq show ?thesis by blast
  next
    case (Inr u)
    with att "1.prems" have rec: "write_read_again d s1 env1 = Some (r, s', env')"
      by (subst (asm) write_read_again.simps) simp
    from "1.IH" [OF att refl Inr refl rec]
    obtain tr where IH: "att_inv s'" "frame s1 s'" "trace s' = trace s1 @ tr"
      "run_shape d r s' (pending s1) tr" by auto
    from a(4) Inr obtain w where w: "nbytes_received s1 = LIBUSB_ERROR_TIMEOUT"
      "mid = w @ [Goto_Again]" "\<forall>a\<in>set w. is_quiet a"
      unfolding attempt_tail_def by auto
    from timed_out_attempt [OF a(1) w(1) a(3) [unfolded w(2)] w(3)]
    obtain xd where t: "\<not> pending s1" "callbacks w = [Read_Callback LIBUSB_TRANSFER_TIMED_OUT xd]"
      by blast
    have "run_shape d r s' (pending s) (Submit_Transfer (pending s) # Control_Transfer d # w @ Goto_Again # tr)"
      using IH(4) t w(3) by (auto intro: run_shape.retry)
    moreover have "trace s' = trace s @ Submit_Transfer (pending s) # Control_Transfer d # w @ Goto_Again # tr"
      using IH(3) a(3) w(2) by simp
    ultimately show ?thesis using IH(1) frame_trans [OF a(2) IH(2)] by blast
  qed
qed

lemma run_shape_final:
  "run_shape d r s' b tr \<Longrightarrow>
     \<exists>pre b' mid. tr = pre @ Submit_Transfer b' # Control_Transfer d # mid \<and> attempt_tail (Inl r) s' mid"
proof (induction rule: run_shape.induct)
  case (final mid b)
  then show ?case by (intro exI [of _ "[]"]) auto
next
  case (retry w x rest b)
  then obtain pre b' mid where "rest = pre @ Submit_Transfer b' # Control_Transfer d # mid"
    "attempt_tail (Inl r) s' mid" by blast
  then show ?case
    by (intro exI [of _ "Submit_Transfer b # Control_Transfer d # w @ Goto_Again # pre"]) auto
qed

lemma attempt_tail_return:
  "attempt_tail (Inl r) s' mid \<Longrightarrow> r < 0 \<or> (r = nbytes_received s' \<and> r \<noteq> 0)"
  unfolding attempt_tail_def fatal_dispatch_def by auto

lemma write_read_return:
  assumes "write_read data len rbuf rlength s env = Some (r, s', env')"
  shows "att_inv s' \<and> (r < 0 \<or> (r = nbytes_received s' \<and> r \<noteq> 0))"
proof -
  from assms obtain s0 where "write_read_again (take len data) s0 env = Some (r, s', env')"
    unfolding write_read_def Let_def by blast
  from write_read_again_sound [OF this] obtain tr where
    "att_inv s'" "run_shape (take len data) r s' (pending s0) tr" by blast
  with run_shape_final attempt_tail_return show ?thesis by blast
qed



lemma quiet_tail_action: "is_quiet a \<Longrightarrow> is_tail_action a"
  by (cases a) auto

lemma attempt_tail_actions:
  "attempt_tail (Inl r) s' mid \<Longrightarrow> \<forall>a\<in>set mid. is_tail_action a"
  unfolding attempt_tail_def by (fastforce dest: quiet_tail_action)




lemma outcome_not_timeout:
  "outcome c \<noteq> LIBUSB_ERROR_TIMEOUT \<Longrightarrow> c_status c \<noteq> LIBUSB_TRANSFER_TIMED_OUT"
  by (auto simp: outcome_simps)



lemma write_read_sound:
  assumes "write_read data len rbuf rlength s env = Some (r, s', env')"
  shows "\<exists>tr. trace s' = trace s @ (if transfer s = None then [Alloc_Transfer] else []) @
             Fill_Transfer rlength # tr \<and>
           run_shape (take len data) r s' (pending s) tr \<and> att_inv s' \<and>
           transfer s' = (if transfer s = None then Some (allocs s) else transfer s) \<and>
           allocs s' = (if transfer s = None then Suc (allocs s) else allocs s) \<and>
           ctx s' = ctx s"
proof -
  let ?s1 = "if transfer s = None then libusb_alloc_transfer s else s"
  let ?s2 = "libusb_fill_interrupt_transfer rbuf rlength ?s1"
  from assms have "write_read_again (take len data) ?s2 env = Some (r, s', env')"
    unfolding write_read_def Let_def .
  from write_read_again_sound [OF this] obtain tr where
    w: "att_inv s'" "frame ?s2 s'" "trace s' = trace ?s2 @ tr"
       "run_shape (take len data) r s' (pending ?s2) tr" by blast
  have p: "pending ?s2 = pending s"
    by (simp add: libusb_fill_interrupt_transfer_def libusb_alloc_transfer_def log_def)
  have t: "trace ?s2 = trace s @ (if transfer s = None then [Alloc_Transfer] else []) @ [Fill_Transfer rlength]"
    by (simp add: libusb_fill_interrupt_transfer_def libusb_alloc_transfer_def log_def)
  have f: "transfer ?s2 = (if transfer s = None then Some (allocs s) else transfer s)"
     "allocs ?s2 = (if transfer s = None then Suc (allocs s) else allocs s)" "ctx ?s2 = ctx s"
    by (simp_all add: libusb_fill_interrupt_transfer_def libusb_alloc_transfer_def log_def)
  from w(2) f have "transfer s' = (if transfer s = None then Some (allocs s) else transfer s)"
     "allocs s' = (if transfer s = None then Suc (allocs s) else allocs s)" "ctx s' = ctx s"
    unfolding frame_def by simp_all
  moreover have "trace s' = trace s @ (if transfer s = None then [Alloc_Transfer] else []) @
             Fill_Transfer rlength # tr" using w(3) t by simp
  ultimately show ?thesis using w(1,4) p by (intro exI [of _ tr]) simp
qed

lemma wait_loop_done:
  "nbytes_received s \<noteq> 0 \<Longrightarrow> wait_loop s es = Some (Inr (), s, es)"
  by (cases es) simp_all





lemma tail_action_not_send: "is_tail_action a \<Longrightarrow> \<not> is_send a"
  by (cases a) auto

lemma sends_armed_skip:
  "\<forall>a\<in>set mid. \<not> is_send a \<Longrightarrow> sends_armed True (Submit_Transfer b # rest) \<Longrightarrow>
     sends_armed f (mid @ Submit_Transfer b # rest)"
proof (induction mid arbitrary: f)
  case Nil
  then show ?case by simp
next
  case (Cons a mid)
  then have "\<And>f. sends_armed f (mid @ Submit_Transfer b # rest)" "\<not> is_send a" by auto
  then show ?case by (cases a) auto
qed

lemma sends_armed_no_send:
  "\<forall>a\<in>set mid. \<not> is_send a \<Longrightarrow> sends_armed f mid"
proof (induction mid arbitrary: f)
  case Nil
  then show ?case by simp
next
  case (Cons a mid)
  then have "\<And>f. sends_armed f mid" "\<not> is_send a" by auto
  then show ?case by (cases a) auto
qed

lemma run_shape_starts:
  "run_shape d r s' b tr \<Longrightarrow> \<exists>rest. tr = Submit_Transfer b # Control_Transfer d # rest"
  by (induction rule: run_shape.induct) auto

lemma run_shape_sends_armed:
  "run_shape d r s' b tr \<Longrightarrow> sends_armed f tr"
proof (induction arbitrary: f rule: run_shape.induct)
  case (final mid b)
  have "\<forall>a\<in>set mid. \<not> is_send a"
    using attempt_tail_actions [OF final(1)] by (blast dest: tail_action_not_send)
  from sends_armed_no_send [OF this] show ?case by simp
next
  case (retry w x rest b)
  from run_shape_starts [OF retry(3)] obtain rest' where
    r: "rest = Submit_Transfer False # Control_Transfer d # rest'" by blast
  have ns: "\<forall>a\<in>set (w @ [Goto_Again]). \<not> is_send a"
    using retry(1) by (auto dest!: quiet_tail_action tail_action_not_send)
  have "sends_armed True (Submit_Transfer False # Control_Transfer d # rest')"
    using retry.IH [of True] r by simp
  from sends_armed_skip [OF ns this, of True] r
  have "sends_armed True (w @ Goto_Again # rest)" by simp
  then show ?case by simp
qed

lemma quiet_not_err_receive: "is_quiet a \<Longrightarrow> \<not> is_err_receive a"
  by (cases a) auto

lemma run_shape_nonempty: "run_shape d r s' b tr \<Longrightarrow> tr \<noteq> []"
  by (induction rule: run_shape.induct) auto

lemma run_shape_err_receive:
  "run_shape d r s' b tr \<Longrightarrow> Err_Receive r0 \<in> set tr \<Longrightarrow>
     r = r0 \<and> fatal_dispatch r0 \<and> last tr = Err_Receive r0"
proof (induction rule: run_shape.induct)
  case (final mid b)
  from final(3) have m: "Err_Receive r0 \<in> set mid" by simp
  from final(1) consider
      (a) w e where "mid = w @ [Err_Transmit e, Cancel_Transfer]" "\<forall>a\<in>set w. is_quiet a"
    | (b) w where "mid = w @ [Err_Receive r]" "\<forall>a\<in>set w. is_quiet a" "fatal_dispatch r"
    | (c) "\<forall>a\<in>set mid. is_quiet a"
    unfolding attempt_tail_def by auto
  then show ?case
  proof cases
    case a
    with m have "Err_Receive r0 \<in> set w" by auto
    with a(2) have "is_quiet (Err_Receive r0)" by blast
    then show ?thesis by simp
  next
    case b
    show ?thesis
    proof (cases "Err_Receive r0 \<in> set w")
      case True
      with b(2) have "is_quiet (Err_Receive r0)" by blast
      then show ?thesis by simp
    next
      case False
      with m b(1) have "r0 = r" by auto
      with b show ?thesis by simp
    qed
  next
    case c
    with m have "is_quiet (Err_Receive r0)" by blast
    then show ?thesis by simp
  qed
next
  case (retry w x rest b)
  have "Err_Receive r0 \<notin> set w"
  proof
    assume "Err_Receive r0 \<in> set w"
    with retry(1) have "is_quiet (Err_Receive r0)" by blast
    then show False by simp
  qed
  with retry(5) have "Err_Receive r0 \<in> set rest" by auto
  from retry.IH [OF this] run_shape_nonempty [OF retry(3)] show ?case by simp
qed

lemma quiet_not_cancel: "is_quiet a \<Longrightarrow> \<not> is_cancel_or_transmit a"
  by (cases a) auto

lemma run_shape_cancel:
  "run_shape d r s' b tr \<Longrightarrow>
     (\<exists>pre e. tr = pre @ [Err_Transmit e, Cancel_Transfer] \<and> e < 0 \<and> r = - 1 \<and>
        (\<forall>a\<in>set pre. \<not> is_cancel_or_transmit a)) \<or>
     (0 \<le> r \<or> (\<forall>a\<in>set tr. \<not> is_failure a) \<or> (\<exists>a\<in>set tr. is_err_receive a)) \<and>
     (\<forall>a\<in>set tr. \<not> is_cancel_or_transmit a)"
proof (induction rule: run_shape.induct)
  case (final mid b)
  from final(1) consider
      (a) w e where "mid = w @ [Err_Transmit e, Cancel_Transfer]" "\<forall>a\<in>set w. is_quiet a"
         "r = - 1" "e < 0"
    | (b) w where "mid = w @ [Err_Receive r]" "\<forall>a\<in>set w. is_quiet a"
    | (c) "\<forall>a\<in>set mid. is_quiet a"
    unfolding attempt_tail_def by auto
  then show ?case
  proof cases
    case a
    have "\<forall>x\<in>set (Submit_Transfer b # Control_Transfer d # w). \<not> is_cancel_or_transmit x"
      using a(2) by (auto dest: quiet_not_cancel)
    moreover have "Submit_Transfer b # Control_Transfer d # mid =
       (Submit_Transfer b # Control_Transfer d # w) @ [Err_Transmit e, Cancel_Transfer]"
      using a(1) by simp
    ultimately show ?thesis using a(3,4) by blast
  next
    case b
    have "\<forall>x\<in>set (Submit_Transfer b # Control_Transfer d # mid). \<not> is_cancel_or_transmit x"
      using b by (auto dest: quiet_not_cancel)
    moreover have "\<exists>a\<in>set (Submit_Transfer b # Control_Transfer d # mid). is_err_receive a"
      using b(1) by auto
    ultimately show ?thesis by blast
  next
    case c
    have "\<forall>x\<in>set (Submit_Transfer b # Control_Transfer d # mid). \<not> is_cancel_or_transmit x"
      using c by (auto dest: quiet_not_cancel)
    moreover have "\<forall>x\<in>set (Submit_Transfer b # Control_Transfer d # mid). \<not> is_failure x"
    proof
      fix x assume "x \<in> set (Submit_Transfer b # Control_Transfer d # mid)"
      with c have "x = Submit_Transfer b \<or> x = Control_Transfer d \<or> is_quiet x" by auto
      then show "\<not> is_failure x" by (cases x) auto
    qed
    ultimately show ?thesis by blast
  qed
next
  case (retry w x rest b)
  let ?h = "Submit_Transfer b # Control_Transfer d # w @ [Goto_Again]"
  have h: "\<forall>a\<in>set ?h. \<not> is_cancel_or_transmit a \<and> \<not> is_failure a"
  proof
    fix a assume "a \<in> set ?h"
    with retry(1) have "a = Submit_Transfer b \<or> a = Control_Transfer d \<or> a = Goto_Again \<or> is_quiet a"
      by auto
    then show "\<not> is_cancel_or_transmit a \<and> \<not> is_failure a" by (cases a) auto
  qed
  have e: "Submit_Transfer b # Control_Transfer d # w @ Goto_Again # rest = ?h @ rest" by simp
  from retry.IH show ?case
  proof
    assume "\<exists>pre e. rest = pre @ [Err_Transmit e, Cancel_Transfer] \<and> e < 0 \<and> r = - 1 \<and>
        (\<forall>a\<in>set pre. \<not> is_cancel_or_transmit a)"
    then obtain pre e where p: "rest = pre @ [Err_Transmit e, Cancel_Transfer]" "e < 0" "r = - 1"
      "\<forall>a\<in>set pre. \<not> is_cancel_or_transmit a" by blast
    have "?h @ rest = (?h @ pre) @ [Err_Transmit e, Cancel_Transfer]" using p(1) by simp
    moreover have "\<forall>a\<in>set (?h @ pre). \<not> is_cancel_or_transmit a" using h p(4) by auto
    ultimately show ?thesis unfolding e using p(2,3) by blast
  next
    assume a: "(0 \<le> r \<or> (\<forall>a\<in>set rest. \<not> is_failure a) \<or> (\<exists>a\<in>set rest. is_err_receive a)) \<and>
      (\<forall>a\<in>set rest. \<not> is_cancel_or_transmit a)"
    then have "\<forall>a\<in>set (?h @ rest). \<not> is_cancel_or_transmit a" using h by auto
    moreover have "0 \<le> r \<or> (\<forall>a\<in>set (?h @ rest). \<not> is_failure a) \<or> (\<exists>a\<in>set (?h @ rest). is_err_receive a)"
      using a h by auto
    ultimately show ?thesis unfolding e by blast
  qed
qed

lemma hid_send_recv_cases:
  assumes "hid_send_recv data nbytes rdata rlength s env = Some (x, s', env')"
  obtains
    (failed) r where "write_read data nbytes rdata rlength s env = Some (r, s', env')"
       "r < 0" "x = Exited"
  | (short) r s1 where "write_read data nbytes rdata rlength s env = Some (r, s1, env')"
       "0 \<le> r" "r \<noteq> int rlength" "x = Exited" "s' = log (Err_Short_Read r rlength) s1"
  | (ok) "write_read data nbytes rdata rlength s env = Some (int rlength, s', env')"
       "x = Returned"
  using assms unfolding hid_send_recv_def
  by (auto split: option.splits if_splits)

lemma wait_idle:
  "nbytes_received s = 0 \<Longrightarrow> \<forall>w\<in>set ws. delivered w = None \<and> \<not> fatal_dispatch (ret w) \<Longrightarrow>
     wait_loop s (ws @ es) =
       wait_loop (s\<lparr>trace := trace s @ replicate (length ws) Handle_Events\<rparr>) es"
proof (induction ws arbitrary: s)
  case Nil
  then show ?case by simp
next
  case (Cons w ws)
  let ?s1 = "libusb_handle_events w s"
  have s1: "?s1 = s\<lparr>trace := trace s @ [Handle_Events]\<rparr>"
    using Cons.prems(2) by (simp add: libusb_handle_events_def deliver_def log_def)
  then have n: "nbytes_received ?s1 = 0" using Cons.prems(1) by simp
  have "wait_loop s ((w # ws) @ es) = wait_loop ?s1 (ws @ es)"
    using Cons.prems by (simp add: Let_def)
  also have "\<dots> = wait_loop (?s1\<lparr>trace := trace ?s1 @ replicate (length ws) Handle_Events\<rparr>) es"
    using Cons.IH [OF n] Cons.prems(2) by simp
  also have "?s1\<lparr>trace := trace ?s1 @ replicate (length ws) Handle_Events\<rparr> =
      s\<lparr>trace := trace s @ replicate (length (w # ws)) Handle_Events\<rparr>"
    unfolding s1 by (simp add: replicate_append_same [symmetric] del: replicate_append_same)
  finally show ?case .
qed











lemma handle_events_idle:
  "\<not> pending s \<Longrightarrow> libusb_handle_events e s = log Handle_Events s"
  by (simp add: libusb_handle_events_def deliver_def log_def split: option.splits)

lemma wait_loop_stuck:
  "\<not> pending s \<Longrightarrow> nbytes_received s = 0 \<Longrightarrow> wait_loop s es = Some (x, s', es') \<Longrightarrow>
     \<exists>r. x = Inl r \<and> fatal_dispatch r"
proof (induction es arbitrary: s)
  case Nil
  then show ?case by simp
next
  case (Cons e es)
  let ?s1 = "libusb_handle_events e s"
  have s1: "\<not> pending ?s1" "nbytes_received ?s1 = 0"
    using Cons.prems(1,2) by (simp_all add: handle_events_idle log_def)
  show ?case
  proof (cases "fatal_dispatch (ret e)")
    case True
    with Cons.prems(2,3) show ?thesis by (auto simp: Let_def)
  next
    case False
    with Cons.prems(2,3) have "wait_loop ?s1 es = Some (x, s', es')" by (simp add: Let_def)
    from Cons.IH [OF s1 this] show ?thesis .
  qed
qed

lemma wait_loop_stuck_forever:
  "\<not> pending s \<Longrightarrow> nbytes_received s = 0 \<Longrightarrow> \<forall>w\<in>set es. \<not> fatal_dispatch (ret w) \<Longrightarrow>
     wait_loop s es = None"
proof (induction es arbitrary: s)
  case Nil
  then show ?case by simp
next
  case (Cons e es)
  let ?s1 = "libusb_handle_events e s"
  have s1: "\<not> pending ?s1" "nbytes_received ?s1 = 0"
    using Cons.prems(1,2) by (simp_all add: handle_events_idle log_def)
  from Cons.IH [OF s1] Cons.prems(2,3) show ?case by (simp add: Let_def)
qed

lemma zero_length_completion:
  assumes "pending s" "delivered e = Some c" "c_status c = LIBUSB_TRANSFER_COMPLETED" "c_data c = []"
  shows "\<not> pending (libusb_handle_events e s) \<and> nbytes_received (libusb_handle_events e s) = 0"
  using assms
  by (simp add: libusb_handle_events_def deliver_def complete_def read_callback_def log_def Let_def)









text \<open>A completed receive of a wrong length other than 0, observed after a successful
  send by a dispatch that does not itself fail, does reach the check of
  \<^verbatim>\<open>hid_send_recv\<close>: the short read is printed and the process exits.\<close>

lemma short_read_reported:
  assumes "0 \<le> ret e0" "delivered e0 = None"
    "\<forall>w\<in>set ws. delivered w = None \<and> \<not> fatal_dispatch (ret w)"
    "delivered e = Some c" "\<not> fatal_dispatch (ret e)"
    "c_status c = LIBUSB_TRANSFER_COMPLETED" "c_data c \<noteq> []" "length (c_data c) \<noteq> rlength"
  shows "\<exists>s'. hid_send_recv data nbytes rdata rlength s (e0 # ws @ e # es) = Some (Exited, s', es) \<and>
     last (trace s') = Err_Short_Read (int (length (c_data c))) rlength"
proof -
  let ?d = "take nbytes data"
  let ?s0 = "libusb_fill_interrupt_transfer rdata rlength
     (if transfer s = None then libusb_alloc_transfer s else s)"
  let ?s2 = "libusb_control_transfer ?d e0 (libusb_submit_transfer (?s0\<lparr>nbytes_received := 0\<rparr>))"
  have p2: "pending ?s2" "nbytes_received ?s2 = 0"
    using assms(2)
    by (simp_all add: libusb_control_transfer_def libusb_submit_transfer_def deliver_def log_def)
  let ?s3 = "?s2\<lparr>trace := trace ?s2 @ replicate (length ws) Handle_Events\<rparr>"
  let ?s4 = "libusb_handle_events e ?s3"
  have w1: "wait_loop ?s2 (ws @ e # es) = wait_loop ?s3 (e # es)"
    by (rule wait_idle [OF p2(2) assms(3)])
  have n4: "nbytes_received ?s4 = int (length (c_data c))"
    using assms(4,6) p2(1)
    by (simp add: libusb_handle_events_def deliver_def complete_def log_def Let_def
          read_callback_def)
  have nz: "nbytes_received ?s4 \<noteq> 0" "nbytes_received ?s4 \<noteq> LIBUSB_ERROR_TIMEOUT"
    using assms(7) unfolding n4 by (simp_all add: libusb_error_defs)
  have "wait_loop ?s3 (e # es) = wait_loop ?s4 es"
    using assms(5) p2(2) by (simp add: Let_def)
  also have "\<dots> = Some (Inr (), ?s4, es)" by (rule wait_loop_done [OF nz(1)])
  finally have w2: "wait_loop ?s2 (ws @ e # es) = Some (Inr (), ?s4, es)" using w1 by simp
  have "attempt ?d (?s0) (e0 # ws @ e # es) = Some (Inl (nbytes_received ?s4), ?s4, es)"
    using assms(1) w2 nz(2) unfolding attempt_def Let_def by simp
  then have "write_read_again ?d ?s0 (e0 # ws @ e # es) = Some (int (length (c_data c)), ?s4, es)"
    unfolding n4 by (subst write_read_again.simps) simp
  then have "write_read data nbytes rdata rlength s (e0 # ws @ e # es)
      = Some (int (length (c_data c)), ?s4, es)"
    unfolding write_read_def Let_def .
  then have "hid_send_recv data nbytes rdata rlength s (e0 # ws @ e # es)
      = Some (Exited, log (Err_Short_Read (int (length (c_data c))) rlength) ?s4, es)"
    using assms(8) unfolding hid_send_recv_def by simp
  then show ?thesis by (simp add: log_def)
qed

section \<open>The claims\<close>





text \<open>
  Claim C7.  In a returning \<^verbatim>\<open>write_read\<close> call the descriptor is filled with the reply
  array and its length, then submitted, and only then is the request sent; and every
  send of the call, also in the attempts after a restart, happens while a receive is
  armed: a submission precedes it and no callback has run in between.
\<close>

theorem write_read_arms_before_send:
  assumes "write_read data len rbuf rlength s env = Some (r, s', env')"
  shows "sends_armed False (drop (length (trace s)) (trace s')) \<and>
     (\<exists>hd tl. drop (length (trace s)) (trace s') = hd @ tl \<and>
        hd = (if transfer s = None then [Alloc_Transfer] else []) @
          [Fill_Transfer rlength, Submit_Transfer (pending s), Control_Transfer (take len data)])"
proof -
  from write_read_sound [OF assms] obtain tr where
    tr: "trace s' = trace s @ (if transfer s = None then [Alloc_Transfer] else []) @
             Fill_Transfer rlength # tr"
        "run_shape (take len data) r s' (pending s) tr" by blast
  from run_shape_starts [OF tr(2)] obtain rest where
    rest: "tr = Submit_Transfer (pending s) # Control_Transfer (take len data) # rest" by blast
  have d: "drop (length (trace s)) (trace s') =
     (if transfer s = None then [Alloc_Transfer] else []) @ Fill_Transfer rlength # tr"
    using tr(1) by simp
  have "sends_armed False ((if transfer s = None then [Alloc_Transfer] else []) @ Fill_Transfer rlength # tr)"
    using run_shape_sends_armed [OF tr(2), of False] by simp
  moreover have "\<exists>hd tl. (if transfer s = None then [Alloc_Transfer] else []) @ Fill_Transfer rlength # tr = hd @ tl \<and>
        hd = (if transfer s = None then [Alloc_Transfer] else []) @
          [Fill_Transfer rlength, Submit_Transfer (pending s), Control_Transfer (take len data)]"
    unfolding rest by simp
  ultimately show ?thesis unfolding d by blast
qed

theorem write_read_arms_before_send_witness:
  "\<exists>s'. write_read [1, 2] 2 (replicate 8 0) 8 init_state
       [sent 2, completes LIBUSB_TRANSFER_TIMED_OUT [], sent 2,
        completes LIBUSB_TRANSFER_COMPLETED [1, 2, 3, 4, 5, 6, 7, 8]] = Some (8, s', []) \<and>
     sends_armed False (drop (length (trace init_state)) (trace s')) \<and>
     (\<exists>hd tl. drop (length (trace init_state)) (trace s') = hd @ tl \<and>
        hd = (if transfer init_state = None then [Alloc_Transfer] else []) @
          [Fill_Transfer 8, Submit_Transfer (pending init_state), Control_Transfer (take 2 [1, 2])])"
proof -
  have "\<exists>s'. write_read [1, 2] 2 (replicate 8 0) 8 init_state
       [sent 2, completes LIBUSB_TRANSFER_TIMED_OUT [], sent 2,
        completes LIBUSB_TRANSFER_COMPLETED [1, 2, 3, 4, 5, 6, 7, 8]] = Some (8, s', [])"
    by (simp add: run_defs)
  then obtain s' where h: "write_read [1, 2] 2 (replicate 8 0) 8 init_state
       [sent 2, completes LIBUSB_TRANSFER_TIMED_OUT [], sent 2,
        completes LIBUSB_TRANSFER_COMPLETED [1, 2, 3, 4, 5, 6, 7, 8]] = Some (8, s', [])"
    by blast
  from write_read_arms_before_send [OF h] h show ?thesis by blast
qed

text \<open>
  Claim C4.  While the outcome slot is 0, a dispatch that returns one of the codes busy,
  timeout, overflow or interrupted changes nothing but what libusb did during the call,
  and the loop goes on with the next dispatch; a dispatch that returns any other
  negative code makes the loop return this code at once, after the message on stderr.
  In a whole \<^verbatim>\<open>write_read\<close> call, a receive error message is the last action and its
  code is the value returned.
\<close>

theorem wait_loop_dispatch_codes:
  "(nbytes_received s = 0 \<and>
      ret e1 \<in> {LIBUSB_ERROR_BUSY, LIBUSB_ERROR_TIMEOUT, LIBUSB_ERROR_OVERFLOW, LIBUSB_ERROR_INTERRUPTED} \<longrightarrow>
        wait_loop s (e1 # es) = wait_loop (libusb_handle_events e1 s) es) \<and>
   (nbytes_received s = 0 \<and> ret e2 < 0 \<and>
      ret e2 \<notin> {LIBUSB_ERROR_BUSY, LIBUSB_ERROR_TIMEOUT, LIBUSB_ERROR_OVERFLOW, LIBUSB_ERROR_INTERRUPTED} \<longrightarrow>
        wait_loop s (e2 # es) =
          Some (Inl (ret e2), log (Err_Receive (ret e2)) (libusb_handle_events e2 s), es)) \<and>
   (write_read data len rbuf rlength s0 env = Some (r, s', env') \<and>
      Err_Receive r0 \<in> set (drop (length (trace s0)) (trace s')) \<longrightarrow>
        r = r0 \<and> r0 < 0 \<and>
        r0 \<notin> {LIBUSB_ERROR_BUSY, LIBUSB_ERROR_TIMEOUT, LIBUSB_ERROR_OVERFLOW, LIBUSB_ERROR_INTERRUPTED} \<and>
        last (trace s') = Err_Receive r0)"
proof (intro conjI impI)
  assume "nbytes_received s = 0 \<and>
      ret e1 \<in> {LIBUSB_ERROR_BUSY, LIBUSB_ERROR_TIMEOUT, LIBUSB_ERROR_OVERFLOW, LIBUSB_ERROR_INTERRUPTED}"
  then show "wait_loop s (e1 # es) = wait_loop (libusb_handle_events e1 s) es"
    by (auto simp: fatal_dispatch_def Let_def)
next
  assume "nbytes_received s = 0 \<and> ret e2 < 0 \<and>
      ret e2 \<notin> {LIBUSB_ERROR_BUSY, LIBUSB_ERROR_TIMEOUT, LIBUSB_ERROR_OVERFLOW, LIBUSB_ERROR_INTERRUPTED}"
  then show "wait_loop s (e2 # es) =
          Some (Inl (ret e2), log (Err_Receive (ret e2)) (libusb_handle_events e2 s), es)"
    by (auto simp: fatal_dispatch_def Let_def)
next
  assume a: "write_read data len rbuf rlength s0 env = Some (r, s', env') \<and>
      Err_Receive r0 \<in> set (drop (length (trace s0)) (trace s'))"
  from write_read_sound [of data len rbuf rlength s0 env r s' env'] a obtain tr where
    tr: "trace s' = trace s0 @ (if transfer s0 = None then [Alloc_Transfer] else []) @
             Fill_Transfer rlength # tr"
        "run_shape (take len data) r s' (pending s0) tr" by blast
  from a tr(1) have "Err_Receive r0 \<in> set tr" by (auto split: if_splits)
  from run_shape_err_receive [OF tr(2) this]
  have f: "r = r0" "fatal_dispatch r0" "last tr = Err_Receive r0" by simp_all
  from run_shape_nonempty [OF tr(2)] tr(1) f(3) have l: "last (trace s') = Err_Receive r0"
    by simp
  from f(2) have "r0 < 0"
    "r0 \<notin> {LIBUSB_ERROR_BUSY, LIBUSB_ERROR_TIMEOUT, LIBUSB_ERROR_OVERFLOW, LIBUSB_ERROR_INTERRUPTED}"
    unfolding fatal_dispatch_def by auto
  with f(1) l show "r = r0" "r0 < 0"
    "r0 \<notin> {LIBUSB_ERROR_BUSY, LIBUSB_ERROR_TIMEOUT, LIBUSB_ERROR_OVERFLOW, LIBUSB_ERROR_INTERRUPTED}"
    "last (trace s') = Err_Receive r0" by simp_all
qed

theorem wait_loop_dispatch_codes_witness:
  "nbytes_received init_state = 0 \<and>
   ret (dispatch_code LIBUSB_ERROR_TIMEOUT) \<in>
     {LIBUSB_ERROR_BUSY, LIBUSB_ERROR_TIMEOUT, LIBUSB_ERROR_OVERFLOW, LIBUSB_ERROR_INTERRUPTED} \<and>
   wait_loop init_state (dispatch_code LIBUSB_ERROR_TIMEOUT # [idle]) =
     wait_loop (libusb_handle_events (dispatch_code LIBUSB_ERROR_TIMEOUT) init_state) [idle] \<and>
   ret (dispatch_code LIBUSB_ERROR_NO_DEVICE) < 0 \<and>
   ret (dispatch_code LIBUSB_ERROR_NO_DEVICE) \<notin>
     {LIBUSB_ERROR_BUSY, LIBUSB_ERROR_TIMEOUT, LIBUSB_ERROR_OVERFLOW, LIBUSB_ERROR_INTERRUPTED} \<and>
   wait_loop init_state (dispatch_code LIBUSB_ERROR_NO_DEVICE # [idle]) =
     Some (Inl (ret (dispatch_code LIBUSB_ERROR_NO_DEVICE)),
       log (Err_Receive (ret (dispatch_code LIBUSB_ERROR_NO_DEVICE)))
         (libusb_handle_events (dispatch_code LIBUSB_ERROR_NO_DEVICE) init_state), [idle]) \<and>
   (\<exists>s'. write_read [1, 2] 2 (replicate 8 0) 8 init_state
            [sent 2, dispatch_code LIBUSB_ERROR_TIMEOUT, dispatch_code LIBUSB_ERROR_NO_DEVICE, idle]
          = Some (- 4, s', [idle]) \<and>
        Err_Receive (- 4) \<in> set (drop (length (trace init_state)) (trace s')) \<and>
        last (trace s') = Err_Receive (- 4))"
proof -
  have h1: "nbytes_received init_state = 0 \<and>
     ret (dispatch_code LIBUSB_ERROR_TIMEOUT) \<in>
       {LIBUSB_ERROR_BUSY, LIBUSB_ERROR_TIMEOUT, LIBUSB_ERROR_OVERFLOW, LIBUSB_ERROR_INTERRUPTED}"
    by (simp add: init_state_def dispatch_code_def)
  have h2: "nbytes_received init_state = 0 \<and> ret (dispatch_code LIBUSB_ERROR_NO_DEVICE) < 0 \<and>
     ret (dispatch_code LIBUSB_ERROR_NO_DEVICE) \<notin>
       {LIBUSB_ERROR_BUSY, LIBUSB_ERROR_TIMEOUT, LIBUSB_ERROR_OVERFLOW, LIBUSB_ERROR_INTERRUPTED}"
    by (simp add: init_state_def dispatch_code_def libusb_error_defs)
  have "\<exists>s'. write_read [1, 2] 2 (replicate 8 0) 8 init_state
            [sent 2, dispatch_code LIBUSB_ERROR_TIMEOUT, dispatch_code LIBUSB_ERROR_NO_DEVICE, idle]
          = Some (- 4, s', [idle]) \<and>
        Err_Receive (- 4) \<in> set (drop (length (trace init_state)) (trace s'))"
    by (simp add: run_defs dispatch_code_def)
  then obtain s' where h3: "write_read [1, 2] 2 (replicate 8 0) 8 init_state
            [sent 2, dispatch_code LIBUSB_ERROR_TIMEOUT, dispatch_code LIBUSB_ERROR_NO_DEVICE, idle]
          = Some (- 4, s', [idle]) \<and>
        Err_Receive (- 4) \<in> set (drop (length (trace init_state)) (trace s'))" by blast
  from wait_loop_dispatch_codes [of init_state "dispatch_code LIBUSB_ERROR_TIMEOUT" "[idle]"
      "dispatch_code LIBUSB_ERROR_NO_DEVICE" "[1, 2]" 2 "replicate 8 0" 8 init_state
      "[sent 2, dispatch_code LIBUSB_ERROR_TIMEOUT, dispatch_code LIBUSB_ERROR_NO_DEVICE, idle]"
      "- 4" s' "[idle]" "- 4"] h1 h2 h3
  show ?thesis by blast
qed

text \<open>
  Claim C5.  An attempt whose send reports an error prints the transmit error, cancels
  the receive it has just submitted, once, and returns \<open>-1\<close>.  A call of
  \<^verbatim>\<open>hid_send_recv\<close> either ended this way, the message and the one cancellation being
  its last two actions, or it has cancelled nothing: no call that ended with a dispatch
  error, a short read or a fatal outcome of the callback contains a cancellation.
\<close>

theorem send_failure_cancels_once:
  "(ret e < 0 \<longrightarrow>
      (\<exists>s1 w. attempt d s (e # es) = Some (Inl (- 1), s1, es) \<and>
         trace s1 = trace s @ Submit_Transfer (pending s) # Control_Transfer d # w @
            [Err_Transmit (ret e), Cancel_Transfer] \<and>
         (\<forall>a\<in>set w. is_callback a))) \<and>
   (hid_send_recv data nbytes rdata rlength s0 env = Some (x, s', env') \<longrightarrow>
      (\<exists>pre e. drop (length (trace s0)) (trace s') = pre @ [Err_Transmit e, Cancel_Transfer] \<and>
         e < 0 \<and> x = Exited \<and> (\<forall>a\<in>set pre. \<not> is_cancel_or_transmit a)) \<or>
      (\<forall>a\<in>set (drop (length (trace s0)) (trace s')). \<not> is_cancel_or_transmit a))"
proof (intro conjI impI)
  assume neg: "ret e < 0"
  let ?s1 = "libusb_submit_transfer (s\<lparr>nbytes_received := 0\<rparr>)"
  obtain cb where cb: "trace (libusb_control_transfer d e ?s1) = trace ?s1 @ Control_Transfer d # cb"
      "\<forall>a\<in>set cb. is_callback a"
    using control_transfer_trace by blast
  let ?s' = "libusb_cancel_transfer (log (Err_Transmit (ret e)) (libusb_control_transfer d e ?s1))"
  have "attempt d s (e # es) = Some (Inl (- 1), ?s', es)"
    using neg by (simp add: attempt_def Let_def)
  moreover have "trace ?s' = trace s @ Submit_Transfer (pending s) # Control_Transfer d # cb @
            [Err_Transmit (ret e), Cancel_Transfer]"
    using cb(1) submit_trace(1) [of s] by (simp add: libusb_cancel_transfer_def log_def)
  ultimately show "\<exists>s1 w. attempt d s (e # es) = Some (Inl (- 1), s1, es) \<and>
         trace s1 = trace s @ Submit_Transfer (pending s) # Control_Transfer d # w @
            [Err_Transmit (ret e), Cancel_Transfer] \<and>
         (\<forall>a\<in>set w. is_callback a)"
    using cb(2) by blast
next
  assume h: "hid_send_recv data nbytes rdata rlength s0 env = Some (x, s', env')"
  let ?hd = "(if transfer s0 = None then [Alloc_Transfer] else []) @ [Fill_Transfer rlength]"
  have hd: "\<forall>a\<in>set ?hd. \<not> is_cancel_or_transmit a" by simp
  have key: "\<And>r s1. write_read data nbytes rdata rlength s0 env = Some (r, s1, env') \<Longrightarrow>
     (\<exists>pre e. drop (length (trace s0)) (trace s1) = pre @ [Err_Transmit e, Cancel_Transfer] \<and>
         e < 0 \<and> r = - 1 \<and> (\<forall>a\<in>set pre. \<not> is_cancel_or_transmit a)) \<or>
      (\<forall>a\<in>set (drop (length (trace s0)) (trace s1)). \<not> is_cancel_or_transmit a)"
  proof -
    fix r s1 assume "write_read data nbytes rdata rlength s0 env = Some (r, s1, env')"
    from write_read_sound [OF this] obtain tr where
      tr: "trace s1 = trace s0 @ (if transfer s0 = None then [Alloc_Transfer] else []) @
               Fill_Transfer rlength # tr"
          "run_shape (take nbytes data) r s1 (pending s0) tr" by blast
    have d: "drop (length (trace s0)) (trace s1) = ?hd @ tr" using tr(1) by simp
    from run_shape_cancel [OF tr(2)]
    show "(\<exists>pre e. drop (length (trace s0)) (trace s1) = pre @ [Err_Transmit e, Cancel_Transfer] \<and>
         e < 0 \<and> r = - 1 \<and> (\<forall>a\<in>set pre. \<not> is_cancel_or_transmit a)) \<or>
      (\<forall>a\<in>set (drop (length (trace s0)) (trace s1)). \<not> is_cancel_or_transmit a)"
    proof
      assume "\<exists>pre e. tr = pre @ [Err_Transmit e, Cancel_Transfer] \<and> e < 0 \<and> r = - 1 \<and>
        (\<forall>a\<in>set pre. \<not> is_cancel_or_transmit a)"
      then obtain pre e where p: "tr = pre @ [Err_Transmit e, Cancel_Transfer]" "e < 0" "r = - 1"
        "\<forall>a\<in>set pre. \<not> is_cancel_or_transmit a" by blast
      have "?hd @ tr = (?hd @ pre) @ [Err_Transmit e, Cancel_Transfer]" using p(1) by simp
      moreover have "\<forall>a\<in>set (?hd @ pre). \<not> is_cancel_or_transmit a" using hd p(4) by auto
      ultimately show ?thesis unfolding d using p(2,3) by blast
    next
      assume "(0 \<le> r \<or> (\<forall>a\<in>set tr. \<not> is_failure a) \<or> (\<exists>a\<in>set tr. is_err_receive a)) \<and>
         (\<forall>a\<in>set tr. \<not> is_cancel_or_transmit a)"
      then have "\<forall>a\<in>set (?hd @ tr). \<not> is_cancel_or_transmit a" using hd by auto
      then show ?thesis unfolding d by blast
    qed
  qed
  from h show "(\<exists>pre e. drop (length (trace s0)) (trace s') = pre @ [Err_Transmit e, Cancel_Transfer] \<and>
         e < 0 \<and> x = Exited \<and> (\<forall>a\<in>set pre. \<not> is_cancel_or_transmit a)) \<or>
      (\<forall>a\<in>set (drop (length (trace s0)) (trace s')). \<not> is_cancel_or_transmit a)"
  proof (cases rule: hid_send_recv_cases)
    case (failed r)
    from key [OF failed(1)] failed(3) show ?thesis by blast
  next
    case (short r s1)
    from write_read_sound [OF short(1)] obtain tr0 where
      t0: "trace s1 = trace s0 @ tr0" by blast
    from key [OF short(1)] short(2)
    have "\<forall>a\<in>set (drop (length (trace s0)) (trace s1)). \<not> is_cancel_or_transmit a" by auto
    moreover have "drop (length (trace s0)) (trace s') =
        drop (length (trace s0)) (trace s1) @ [Err_Short_Read r rlength]"
      using t0 short(5) by (simp add: log_def)
    ultimately show ?thesis by auto
  next
    case ok
    from key [OF ok(1)] have "\<forall>a\<in>set (drop (length (trace s0)) (trace s')). \<not> is_cancel_or_transmit a"
      by auto
    then show ?thesis by blast
  qed
qed

theorem send_failure_cancels_once_witness:
  "ret (dispatch_code LIBUSB_ERROR_NO_DEVICE) < 0 \<and>
   (\<exists>s1 w. attempt [1, 2] init_state (dispatch_code LIBUSB_ERROR_NO_DEVICE # [idle]) =
        Some (Inl (- 1), s1, [idle]) \<and>
      trace s1 = trace init_state @ Submit_Transfer (pending init_state) # Control_Transfer [1, 2] # w @
         [Err_Transmit (ret (dispatch_code LIBUSB_ERROR_NO_DEVICE)), Cancel_Transfer] \<and>
      (\<forall>a\<in>set w. is_callback a)) \<and>
   (\<exists>s'. hid_send_recv [1, 2] 2 (replicate 8 0) 8 init_state
        [dispatch_code LIBUSB_ERROR_NO_DEVICE, idle] = Some (Exited, s', [idle]) \<and>
      ((\<exists>pre e. drop (length (trace init_state)) (trace s') = pre @ [Err_Transmit e, Cancel_Transfer] \<and>
         e < 0 \<and> Exited = Exited \<and> (\<forall>a\<in>set pre. \<not> is_cancel_or_transmit a)) \<or>
       (\<forall>a\<in>set (drop (length (trace init_state)) (trace s')). \<not> is_cancel_or_transmit a)))"
proof -
  have h1: "ret (dispatch_code LIBUSB_ERROR_NO_DEVICE) < 0"
    by (simp add: dispatch_code_def libusb_error_defs)
  have "\<exists>s'. hid_send_recv [1, 2] 2 (replicate 8 0) 8 init_state
        [dispatch_code LIBUSB_ERROR_NO_DEVICE, idle] = Some (Exited, s', [idle])"
    by (simp add: run_defs dispatch_code_def)
  then obtain s' where h2: "hid_send_recv [1, 2] 2 (replicate 8 0) 8 init_state
        [dispatch_code LIBUSB_ERROR_NO_DEVICE, idle] = Some (Exited, s', [idle])" by blast
  from send_failure_cancels_once [of "dispatch_code LIBUSB_ERROR_NO_DEVICE" "[1, 2]" init_state "[idle]"
     "[1, 2]" 2 "replicate 8 0" 8 init_state "[dispatch_code LIBUSB_ERROR_NO_DEVICE, idle]" Exited s' "[idle]"]
    h1 h2
  show ?thesis by blast
qed



text \<open>
  Claim C10.  \<^verbatim>\<open>write_read\<close> never returns 0, so a value it returns as a success is
  positive.  A completed transfer of length 0 makes the callback store 0, the value the
  slot holds while no outcome has arrived.  After such a completion the receive is no
  longer outstanding and the slot is still 0: the wait loop can only end by a fatal
  dispatch code, and as long as the dispatches report none it does not end.
\<close>

theorem zero_is_no_outcome:
  "(write_read data len rbuf rlength s0 env = Some (r, s', env') \<longrightarrow> r \<noteq> 0 \<and> (0 \<le> r \<longrightarrow> 0 < r)) \<and>
   nbytes_received (read_callback
      \<lparr>status = LIBUSB_TRANSFER_COMPLETED, buffer = b, actual_length = 0\<rparr> s) = 0 \<and>
   (pending s \<and> nbytes_received s = 0 \<and> delivered e = Some c \<and>
      c_status c = LIBUSB_TRANSFER_COMPLETED \<and> c_data c = [] \<and> \<not> fatal_dispatch (ret e) \<longrightarrow>
        (\<forall>es x s1 es1. wait_loop s (e # es) = Some (x, s1, es1) \<longrightarrow> (\<exists>r. x = Inl r \<and> fatal_dispatch r)) \<and>
        (\<forall>es. (\<forall>w\<in>set es. \<not> fatal_dispatch (ret w)) \<longrightarrow> wait_loop s (e # es) = None))"
proof (intro conjI impI allI)
  assume w: "write_read data len rbuf rlength s0 env = Some (r, s', env')"
  from write_read_return [OF w] show "r \<noteq> 0" by auto
  assume "0 \<le> r"
  with write_read_return [OF w] show "0 < r" by auto
next
  show "nbytes_received (read_callback
      \<lparr>status = LIBUSB_TRANSFER_COMPLETED, buffer = b, actual_length = 0\<rparr> s) = 0"
    by (simp add: read_callback_def)
next
  fix es :: "env_step list" and x s1 es1
  assume a: "pending s \<and> nbytes_received s = 0 \<and> delivered e = Some c \<and>
      c_status c = LIBUSB_TRANSFER_COMPLETED \<and> c_data c = [] \<and> \<not> fatal_dispatch (ret e)"
    and w: "wait_loop s (e # es) = Some (x, s1, es1)"
  from a zero_length_completion [of s e c]
  have z: "\<not> pending (libusb_handle_events e s)" "nbytes_received (libusb_handle_events e s) = 0"
    by simp_all
  from a w have "wait_loop (libusb_handle_events e s) es = Some (x, s1, es1)"
    by (simp add: Let_def)
  from wait_loop_stuck [OF z this] show "\<exists>r. x = Inl r \<and> fatal_dispatch r" .
next
  fix es :: "env_step list"
  assume a: "pending s \<and> nbytes_received s = 0 \<and> delivered e = Some c \<and>
      c_status c = LIBUSB_TRANSFER_COMPLETED \<and> c_data c = [] \<and> \<not> fatal_dispatch (ret e)"
    and q: "\<forall>w\<in>set es. \<not> fatal_dispatch (ret w)"
  from a zero_length_completion [of s e c]
  have z: "\<not> pending (libusb_handle_events e s)" "nbytes_received (libusb_handle_events e s) = 0"
    by simp_all
  from a have "wait_loop s (e # es) = wait_loop (libusb_handle_events e s) es"
    by (simp add: Let_def)
  with wait_loop_stuck_forever [OF z q] show "wait_loop s (e # es) = None" by simp
qed

theorem zero_is_no_outcome_witness:
  "(\<exists>s'. write_read [1, 2] 2 (replicate 8 0) 8 init_state
        [sent 2, completes LIBUSB_TRANSFER_COMPLETED [1, 2, 3, 4, 5, 6, 7, 8]] = Some (8, s', []) \<and>
      (8::int) \<noteq> 0 \<and> ((0::int) \<le> 8 \<and> (0::int) < 8)) \<and>
   pending armed_state \<and> nbytes_received armed_state = 0 \<and>
   delivered (completes LIBUSB_TRANSFER_COMPLETED []) =
      Some \<lparr>c_status = LIBUSB_TRANSFER_COMPLETED, c_data = []\<rparr> \<and>
   \<not> fatal_dispatch (ret (completes LIBUSB_TRANSFER_COMPLETED [])) \<and>
   \<not> fatal_dispatch (ret idle) \<and>
   wait_loop armed_state (completes LIBUSB_TRANSFER_COMPLETED [] # [idle, idle]) = None \<and>
   (\<exists>s1. wait_loop armed_state
       (completes LIBUSB_TRANSFER_COMPLETED [] # [idle, dispatch_code LIBUSB_ERROR_NO_DEVICE])
         = Some (Inl (- 4), s1, []) \<and> fatal_dispatch (- 4))"
proof -
  let ?c = "\<lparr>c_status = LIBUSB_TRANSFER_COMPLETED, c_data = []\<rparr>"
  let ?e = "completes LIBUSB_TRANSFER_COMPLETED []"
  have "\<exists>s'. write_read [1, 2] 2 (replicate 8 0) 8 init_state
        [sent 2, completes LIBUSB_TRANSFER_COMPLETED [1, 2, 3, 4, 5, 6, 7, 8]] = Some (8, s', [])"
    by (simp add: run_defs)
  then obtain s' where h1: "write_read [1, 2] 2 (replicate 8 0) 8 init_state
        [sent 2, completes LIBUSB_TRANSFER_COMPLETED [1, 2, 3, 4, 5, 6, 7, 8]] = Some (8, s', [])"
    by blast
  have h2: "pending armed_state \<and> nbytes_received armed_state = 0 \<and> delivered ?e = Some ?c \<and>
      c_status ?c = LIBUSB_TRANSFER_COMPLETED \<and> c_data ?c = [] \<and> \<not> fatal_dispatch (ret ?e)"
    by (simp add: armed_state_def libusb_submit_transfer_def log_def completes_def
          fatal_dispatch_def init_state_def)
  have h3: "\<forall>w\<in>set [idle, idle]. \<not> fatal_dispatch (ret w)"
    by (simp add: idle_def fatal_dispatch_def)
  have "\<exists>s1. wait_loop armed_state (?e # [idle, dispatch_code LIBUSB_ERROR_NO_DEVICE])
         = Some (Inl (- 4), s1, [])"
    by (simp add: run_defs armed_state_def dispatch_code_def)
  then obtain s1 where h4: "wait_loop armed_state (?e # [idle, dispatch_code LIBUSB_ERROR_NO_DEVICE])
         = Some (Inl (- 4), s1, [])" by blast
  note t = zero_is_no_outcome [of "[1, 2]" 2 "replicate 8 0" 8 init_state
      "[sent 2, completes LIBUSB_TRANSFER_COMPLETED [1, 2, 3, 4, 5, 6, 7, 8]]" 8 s' "[]" _
      armed_state ?e ?c]
  from t h1 have a: "(8::int) \<noteq> 0 \<and> ((0::int) \<le> 8 \<and> (0::int) < 8)" by simp
  from t h2 h3 have b: "wait_loop armed_state (?e # [idle, idle]) = None" by blast
  from t h2 h4 have c: "fatal_dispatch (- 4)" by blast
  have h3': "\<not> fatal_dispatch (ret idle)" by (simp add: idle_def fatal_dispatch_def)
  from h1 h2 h3' h4 a b c show ?thesis by blast
qed

text \<open>
  Claim C2, at the input where the code departs from it.  Eight bytes are expected and
  the receive completes with \<open>actual_length = 0\<close>.  However many dispatches follow,
  \<^verbatim>\<open>hid_send_recv\<close> does not return and no short read is reported; when a later
  dispatch fails, the process exits on the receive error, again without the short-read
  report.
\<close>

theorem zero_length_reply_never_reported:
  "hid_send_recv [1, 2] 2 (replicate 8 0) 8 init_state
      ([sent 2, completes LIBUSB_TRANSFER_COMPLETED []] @ replicate n idle) = None \<and>
   (\<exists>s'. hid_send_recv [1, 2] 2 (replicate 8 0) 8 init_state
      [sent 2, completes LIBUSB_TRANSFER_COMPLETED [], idle, dispatch_code LIBUSB_ERROR_NO_DEVICE]
        = Some (Exited, s', []) \<and> last (trace s') = Err_Receive (- 4))"
proof
  let ?s3 = "libusb_handle_events (completes LIBUSB_TRANSFER_COMPLETED [])
      (libusb_control_transfer [1, 2] (sent 2)
        (libusb_submit_transfer
          ((libusb_fill_interrupt_transfer (replicate 8 0) 8 (libusb_alloc_transfer init_state))
             \<lparr>nbytes_received := 0\<rparr>)))"
  have s3: "\<not> pending ?s3" "nbytes_received ?s3 = 0"
    by (simp_all add: run_defs)
  have q: "\<forall>w\<in>set (replicate n idle). \<not> fatal_dispatch (ret w)"
    by (simp add: idle_def fatal_dispatch_def)
  have "wait_loop ?s3 (replicate n idle) = None"
    by (rule wait_loop_stuck_forever [OF s3 q])
  then show "hid_send_recv [1, 2] 2 (replicate 8 0) 8 init_state
      ([sent 2, completes LIBUSB_TRANSFER_COMPLETED []] @ replicate n idle) = None"
    by (simp add: hid_send_recv_def write_read_def write_read_again.simps attempt_def Let_def
          init_state_def sent_def completes_def fatal_dispatch_def libusb_error_defs
          libusb_submit_transfer_def libusb_control_transfer_def deliver_def log_def
          libusb_alloc_transfer_def libusb_fill_interrupt_transfer_def)
next
  show "\<exists>s'. hid_send_recv [1, 2] 2 (replicate 8 0) 8 init_state
      [sent 2, completes LIBUSB_TRANSFER_COMPLETED [], idle, dispatch_code LIBUSB_ERROR_NO_DEVICE]
        = Some (Exited, s', []) \<and> last (trace s') = Err_Receive (- 4)"
    by (simp add: run_defs dispatch_code_def)
qed






end
